theory Spec2Isabelle
  imports Complex_Main
begin

section \<open>The paced text-injection engine (class TypingSimulator)\<close>

text \<open>
  The engine is the class \<open>TypingSimulator\<close>. Its methods are embedded as functions on
  an explicit state: the fields of the object, the suspended run loop (the coroutine of
  \<open>_ensureRunning\<close> and \<open>_runJob\<close>), and a trace of everything the object does to the
  outside: calls of \<open>_sendBatch\<close>, timer waits and emitted events.

  JavaScript strings are modelled as \<open>string\<close>, one \<open>char\<close> per code unit. Numbers are
  \<open>real\<close>, the batch sizes too: the constructor keeps any number but 0 that it is given,
  a negative or a fractional one as well. The outcome of the k-th call
  of \<open>Math.random()\<close> is \<open>rnd k\<close> for a function \<open>rnd\<close> that every operation takes as
  a parameter.

  The run loop is an \<open>async\<close> function: a call runs it up to its first suspension, and
  the event loop resumes it later. The model suspends it in every awaited \<open>_sendBatch\<close>
  (the external injection) and nowhere else; \<open>tick\<close> is one resumption. The timer wait
  after a dispatch belongs to the next resumption, since nothing is read between the two,
  and an \<open>await\<close> of a promise that is already settled continues in the same turn. The
  public operations are called between turns.
\<close>

subsection \<open>Data\<close>

datatype jsval = Undefined | Null | Str string

fun falsy :: "jsval \<Rightarrow> bool" where
  "falsy Undefined = True"
| "falsy Null = True"
| "falsy (Str s) = (s = [])"

fun String :: "jsval \<Rightarrow> string" where
  "String Undefined = ''undefined''"
| "String Null = ''null''"
| "String (Str s) = s"

record meta =
  m_batchMode :: "bool option"
  m_wpm :: "real option"
  m_source :: "string option"

text \<open>A job's \<open>meta\<close> is \<open>None\<close> when the caller passed \<open>null\<close>.\<close>

record job =
  text_job :: string
  delayMs :: real
  jmeta :: "meta option"

datatype event =
    Queued job
  | Started
  | ProgressToken job string
  | ProgressChar job nat char
  | JobDone job
  | JobError job
  | Paused
  | Resumed
  | Stopped
  | Idle

text \<open>
  The argument of a call of \<open>_sendBatch\<close>, tagged with the call site it comes from:
  \<open>Literal\<close> for a batch built from the text, \<open>Control\<close> for the engine's own
  \<open>'{ENTER}'\<close> and \<open>'{TAB}'\<close>. The method itself receives the string only.
\<close>

datatype dispatch = Literal string | Control string

fun arg :: "dispatch \<Rightarrow> string" where
  "arg (Literal b) = b"
| "arg (Control t) = t"

datatype action = Send dispatch | Sleep real | Emit event

text \<open>
  Where the run loop is suspended. Every suspension is in an awaited \<open>_sendBatch\<close>; the
  timer wait that follows is taken when the loop is resumed.
\<close>

datatype kont =
    KToken string real string
  | KLoop string
  | KReturn

datatype pc =
    InFlush string real kont
  | InToken real string
  | InChar nat char string

record sim =
  queue :: "job list"
  isRunning :: bool
  isPaused :: bool
  currentJob :: "job option"
  wpm :: real
  batchMode :: bool
  defaultDelay :: real
  avgCharsPerWord :: real
  maxBatchSize :: real
  minBatchSize :: real
  task :: "(job \<times> real \<times> pc) option"
  trace :: "action list"
  rctr :: nat

datatype outcome = Suspended pc sim | Returned sim

record options =
  o_wpm :: "real option"
  o_batchMode :: "bool option"
  o_defaultDelay :: "real option"
  o_maxBatchSize :: "real option"
  o_minBatchSize :: "real option"

subsection \<open>Constructor and setters\<close>

text \<open>\<open>v || d\<close> for a number \<open>v\<close> that may be \<open>undefined\<close> or \<open>NaN\<close> (\<open>None\<close>).\<close>

definition or_real :: "real option \<Rightarrow> real \<Rightarrow> real" where
  "or_real v d = (case v of None \<Rightarrow> d | Some x \<Rightarrow> if x = 0 then d else x)"

definition TypingSimulator :: "options \<Rightarrow> sim" where
  "TypingSimulator opts =
     \<lparr> queue = [], isRunning = False, isPaused = False, currentJob = None,
       wpm = or_real (o_wpm opts) 60,
       batchMode = (case o_batchMode opts of Some b \<Rightarrow> b | None \<Rightarrow> True),
       defaultDelay = (case o_defaultDelay opts of Some d \<Rightarrow> d | None \<Rightarrow> 0),
       avgCharsPerWord = 5,
       maxBatchSize = or_real (o_maxBatchSize opts) 12,
       minBatchSize = or_real (o_minBatchSize opts) 3,
       task = None, trace = [], rctr = 0 \<rparr>"

definition no_options :: options where
  "no_options = \<lparr> o_wpm = None, o_batchMode = None, o_defaultDelay = None,
                  o_maxBatchSize = None, o_minBatchSize = None \<rparr>"

text \<open>\<open>setWpm\<close> takes \<open>Number(wpm)\<close>; \<open>None\<close> is \<open>NaN\<close>.\<close>

definition setWpm :: "real option \<Rightarrow> sim \<Rightarrow> sim" where
  "setWpm n s = s\<lparr>wpm := max 5 (or_real n (wpm s))\<rparr>"

definition setBatchMode :: "bool \<Rightarrow> sim \<Rightarrow> sim" where
  "setBatchMode enabled s = s\<lparr>batchMode := enabled\<rparr>"

subsection \<open>Effects\<close>

definition emit :: "event \<Rightarrow> sim \<Rightarrow> sim" where
  "emit e s = s\<lparr>trace := trace s @ [Emit e]\<rparr>"

definition send :: "dispatch \<Rightarrow> sim \<Rightarrow> sim" where
  "send d s = s\<lparr>trace := trace s @ [Send d]\<rparr>"

definition sleep :: "real \<Rightarrow> sim \<Rightarrow> sim" where
  "sleep ms s = s\<lparr>trace := trace s @ [Sleep ms]\<rparr>"

definition draw :: "sim \<Rightarrow> sim" where
  "draw s = s\<lparr>rctr := Suc (rctr s)\<rparr>"

subsection \<open>The pacer: \<open>_runJob\<close>\<close>

definition is_punct :: "char \<Rightarrow> bool" where
  "is_punct ch = (ch \<in> set ''.!?,;:'')"

definition is_terminal :: "char \<Rightarrow> bool" where
  "is_terminal ch = (ch \<in> set ''.!?'')"

text \<open>
  \<open>flushBatch(extraPause)\<close> up to its first suspension: nothing for an empty batch,
  else the call of \<open>_sendBatch(batch)\<close>. The rest of the body runs in \<open>resume_pc\<close>.
\<close>

definition finish :: "string \<Rightarrow> sim \<Rightarrow> outcome" where
  "finish batch s =
     (if batch \<noteq> [] then Suspended (InFlush batch 0 KReturn) (send (Literal batch) s)
      else Returned s)"

text \<open>
  The batch-mode \<open>for\<close> loop from its head, at the characters still to scan, until
  the next call of \<open>_sendBatch\<close> or the end of the job. On a newline or a tab with an
  empty batch, \<open>flushBatch\<close> returns at once and the token is sent in the same turn.
  After a character is appended the batch is not empty, so the guard of \<open>flushBatch\<close>
  has no branch there. \<open>Math.random()\<close> is called only when the batch has reached
  \<open>minBatchSize\<close>, as the \<open>&&\<close> of the source evaluates it.
\<close>

fun scan :: "(nat \<Rightarrow> real) \<Rightarrow> string \<Rightarrow> string \<Rightarrow> sim \<Rightarrow> outcome" where
  "scan rnd [] batch s = finish batch s"
| "scan rnd (ch # cs) batch s =
     (if isPaused s then finish batch s
      else if ch = CHR 0x0A then
        (if batch = [] then Suspended (InToken 80 cs) (send (Control ''{ENTER}'') s)
         else Suspended (InFlush batch 0 (KToken ''{ENTER}'' 80 cs)) (send (Literal batch) s))
      else if ch = CHR 0x09 then
        (if batch = [] then Suspended (InToken 40 cs) (send (Control ''{TAB}'') s)
         else Suspended (InFlush batch 0 (KToken ''{TAB}'' 40 cs)) (send (Literal batch) s))
      else
        (let batch' = batch @ [ch] in
         if is_punct ch \<or> maxBatchSize s \<le> real (length batch') then
           Suspended (InFlush batch' (if is_terminal ch then 260 else 0) (KLoop cs))
             (send (Literal batch') s)
         else if minBatchSize s \<le> real (length batch') then
           (if rnd (rctr s) < 0.12 then
              Suspended (InFlush batch' 0 (KLoop cs)) (send (Literal batch') (draw s))
            else scan rnd cs batch' (draw s))
         else scan rnd cs batch' s))"

text \<open>The character-by-character loop from its head.\<close>

fun scan_nb :: "nat \<Rightarrow> string \<Rightarrow> sim \<Rightarrow> outcome" where
  "scan_nb i [] s = Returned s"
| "scan_nb i (ch # cs) s =
     (if isPaused s then Returned s
      else Suspended (InChar i ch cs)
             (send (if ch = CHR 0x0A then Control ''{ENTER}''
                    else if ch = CHR 0x09 then Control ''{TAB}''
                    else Literal [ch]) s))"

text \<open>Resuming the loop after the awaited \<open>_sendBatch\<close> has resolved.\<close>

fun resume_pc :: "(nat \<Rightarrow> real) \<Rightarrow> job \<Rightarrow> real \<Rightarrow> pc \<Rightarrow> sim \<Rightarrow> outcome" where
  "resume_pc rnd j timePerChar (InFlush batch extraPause k) s =
     (let s1 = emit (ProgressToken j batch) s;
          baseWait = timePerChar * real (length batch) * 0.85;
          jitter = rnd (rctr s1) * baseWait * 0.08;
          s2 = sleep (max 0 (baseWait + jitter + extraPause)) (draw s1)
      in case k of
           KToken tok settle cs \<Rightarrow> Suspended (InToken settle cs) (send (Control tok) s2)
         | KLoop cs \<Rightarrow> scan rnd cs [] s2
         | KReturn \<Rightarrow> Returned s2)"
| "resume_pc rnd j timePerChar (InToken settle cs) s = scan rnd cs [] (sleep settle s)"
| "resume_pc rnd j timePerChar (InChar i ch cs) s =
     (let baseWait = timePerChar * 0.85;
          jitter = rnd (rctr s) * baseWait * 0.08;
          s1 = sleep (max 0 (baseWait + jitter)) (draw s)
      in scan_nb (Suc i) cs (emit (ProgressChar j i ch) s1))"

text \<open>
  The start of \<open>_runJob\<close>: \<open>None\<close> when reading \<open>job.meta.batchMode\<close> throws
  (\<open>meta\<close> is \<open>null\<close>), else the time per character and the loop up to its first
  suspension.
\<close>

definition runJob :: "(nat \<Rightarrow> real) \<Rightarrow> job \<Rightarrow> sim \<Rightarrow> (real \<times> outcome) option" where
  "runJob rnd j s =
     (case jmeta j of
        None \<Rightarrow> None
      | Some m \<Rightarrow>
          (let useBatch = (case m_batchMode m of Some b \<Rightarrow> b | None \<Rightarrow> batchMode s);
               w = or_real (m_wpm m) (wpm s);
               timePerChar = 60000 / (w * avgCharsPerWord s)
           in Some (timePerChar,
                if useBatch then scan rnd (text_job j) [] s else scan_nb 0 (text_job j) s)))"

subsection \<open>What the pacer leaves unchanged\<close>

fun state_of :: "outcome \<Rightarrow> sim" where
  "state_of (Suspended p s) = s"
| "state_of (Returned s) = s"

definition core :: "sim \<Rightarrow> sim" where
  "core s = s\<lparr>trace := [], rctr := 0\<rparr>"

lemma core_effects [simp]:
  "core (emit e s) = core s" "core (send d s) = core s"
  "core (sleep ms s) = core s" "core (draw s) = core s"
  by (simp_all add: core_def emit_def send_def sleep_def draw_def)

lemma core_fields:
  "queue (core s) = queue s" "isRunning (core s) = isRunning s"
  "isPaused (core s) = isPaused s" "currentJob (core s) = currentJob s"
  "wpm (core s) = wpm s" "batchMode (core s) = batchMode s"
  "defaultDelay (core s) = defaultDelay s" "avgCharsPerWord (core s) = avgCharsPerWord s"
  "maxBatchSize (core s) = maxBatchSize s" "minBatchSize (core s) = minBatchSize s"
  "task (core s) = task s"
  by (simp_all add: core_def)

lemma finish_core [simp]: "core (state_of (finish batch s)) = core s"
  by (simp add: finish_def)

lemma scan_core [simp]: "core (state_of (scan rnd cs batch s)) = core s"
  by (induction rnd cs batch s rule: scan.induct) (simp_all add: Let_def)

lemma scan_nb_core [simp]: "core (state_of (scan_nb i cs s)) = core s"
  by (cases cs) simp_all

lemma resume_pc_core [simp]: "core (state_of (resume_pc rnd j tpc p s)) = core s"
proof (cases p)
  case (InFlush batch extra k)
  then show ?thesis by (cases k) (simp_all add: Let_def)
qed (simp_all add: Let_def)

lemma runJob_core:
  assumes "runJob rnd j s = Some (tpc, out)"
  shows "core (state_of out) = core s"
  using assms by (auto simp: runJob_def Let_def split: option.splits if_splits)

lemma same_core_queue: "core s' = core s \<Longrightarrow> queue s' = queue s"
  by (metis core_fields(1))

subsection \<open>The run loop: \<open>_ensureRunning\<close>\<close>

text \<open>
  The \<open>while\<close> loop of \<open>_ensureRunning\<close> from its head, until the coroutine is
  suspended in a job or leaves the loop, turns \<open>isRunning\<close> off and emits \<open>idle\<close>.
\<close>

function ensure_loop :: "(nat \<Rightarrow> real) \<Rightarrow> sim \<Rightarrow> sim" where
  "ensure_loop rnd s =
     (if queue s \<noteq> [] \<and> \<not> isPaused s then
        (let j = hd (queue s);
             s1 = s\<lparr>queue := tl (queue s), currentJob := Some j\<rparr>
         in case runJob rnd j s1 of
              None \<Rightarrow> ensure_loop rnd ((emit (JobError j) s1)\<lparr>currentJob := None\<rparr>)
            | Some (tpc, Suspended p s2) \<Rightarrow> s2\<lparr>task := Some (j, tpc, p)\<rparr>
            | Some (tpc, Returned s2) \<Rightarrow>
                ensure_loop rnd ((emit (JobDone j) s2)\<lparr>currentJob := None\<rparr>))
      else (emit Idle (s\<lparr>isRunning := False\<rparr>))\<lparr>task := None\<rparr>)"
  by pat_completeness auto
termination
proof (relation "measure (\<lambda>(rnd, s). length (queue s))", goal_cases)
  case 1
  show ?case by simp
next
  case (2 rnd s j s1)
  then show ?case by (cases "queue s") (simp_all add: emit_def)
next
  case (3 rnd s j s1 x tpc out s2)
  then have "queue s2 = queue s1"
    using same_core_queue [OF runJob_core [of rnd j s1 tpc out]] by simp
  with 3 show ?case by (cases "queue s") (simp_all add: emit_def)
qed

declare ensure_loop.simps [simp del]

definition ensureRunning :: "(nat \<Rightarrow> real) \<Rightarrow> sim \<Rightarrow> sim" where
  "ensureRunning rnd s =
     (if isRunning s \<or> isPaused s then s
      else ensure_loop rnd (emit Started (s\<lparr>isRunning := True\<rparr>)))"

text \<open>
  One turn of the event loop for the suspended coroutine: it runs from the resolved
  \<open>_sendBatch\<close> to its next suspension, through the end of the job and the next jobs
  if need be.
\<close>

definition tick :: "(nat \<Rightarrow> real) \<Rightarrow> sim \<Rightarrow> sim" where
  "tick rnd s =
     (case task s of
        None \<Rightarrow> s
      | Some (j, tpc, p) \<Rightarrow>
          (case resume_pc rnd j tpc p s of
             Suspended p' s' \<Rightarrow> s'\<lparr>task := Some (j, tpc, p')\<rparr>
           | Returned s' \<Rightarrow> ensure_loop rnd ((emit (JobDone j) s')\<lparr>currentJob := None\<rparr>)))"

subsection \<open>The public operations\<close>

definition enqueueText ::
  "(nat \<Rightarrow> real) \<Rightarrow> jsval \<Rightarrow> real option \<Rightarrow> meta option option \<Rightarrow> sim \<Rightarrow> job option \<times> sim" where
  "enqueueText rnd text_v delay_v meta_v s =
     (if falsy text_v then (None, s)
      else
        (let j = \<lparr> text_job = String text_v,
                   delayMs = (case delay_v of None \<Rightarrow> defaultDelay s | Some d \<Rightarrow> d),
                   jmeta = (case meta_v of
                              None \<Rightarrow> Some \<lparr> m_batchMode = None, m_wpm = None, m_source = None \<rparr>
                            | Some m \<Rightarrow> m) \<rparr>;
             s1 = emit (Queued j) (s\<lparr>queue := queue s @ [j]\<rparr>)
         in (Some j, ensureRunning rnd s1)))"

definition pause :: "sim \<Rightarrow> sim" where
  "pause s = emit Paused (s\<lparr>isPaused := True\<rparr>)"

definition resume :: "(nat \<Rightarrow> real) \<Rightarrow> sim \<Rightarrow> sim" where
  "resume rnd s =
     (if \<not> isPaused s then s
      else ensureRunning rnd (emit Resumed (s\<lparr>isPaused := False\<rparr>)))"

definition stop :: "sim \<Rightarrow> sim" where
  "stop s = emit Stopped (s\<lparr>queue := [], isPaused := False, currentJob := None\<rparr>)"

subsection \<open>Running to completion\<close>

text \<open>
  An uninterrupted run resumes the coroutine until it has left the loop. That this ends
  is shown with a bound on the turns still to come: two per character and one per job.
\<close>

lemma ensure_loop_idle:
  "queue s = [] \<or> isPaused s \<Longrightarrow>
   ensure_loop rnd s = (emit Idle (s\<lparr>isRunning := False\<rparr>))\<lparr>task := None\<rparr>"
  by (subst ensure_loop.simps) auto

lemma ensure_loop_step:
  "queue s = j # q \<Longrightarrow> \<not> isPaused s \<Longrightarrow>
   ensure_loop rnd s =
     (case runJob rnd j (s\<lparr>queue := q, currentJob := Some j\<rparr>) of
        None \<Rightarrow> ensure_loop rnd ((emit (JobError j) (s\<lparr>queue := q, currentJob := Some j\<rparr>))\<lparr>currentJob := None\<rparr>)
      | Some (tpc, Suspended p s2) \<Rightarrow> s2\<lparr>task := Some (j, tpc, p)\<rparr>
      | Some (tpc, Returned s2) \<Rightarrow>
          ensure_loop rnd ((emit (JobDone j) s2)\<lparr>currentJob := None\<rparr>))"
  by (subst ensure_loop.simps) (simp add: Let_def)

fun kw :: "kont \<Rightarrow> nat" where
  "kw (KToken tok settle cs) = 2 * length cs + 3"
| "kw (KLoop cs) = 2 * length cs + 2"
| "kw KReturn = 0"

fun pcw :: "pc \<Rightarrow> nat" where
  "pcw (InFlush batch extra k) = kw k"
| "pcw (InToken settle cs) = 2 * length cs + 2"
| "pcw (InChar i ch cs) = 2 * length cs + 2"

fun ow :: "outcome \<Rightarrow> nat" where
  "ow (Suspended p s) = Suc (pcw p)"
| "ow (Returned s) = 0"

definition jw :: "job \<Rightarrow> nat" where
  "jw j = 2 * length (text_job j) + 3"

definition work :: "sim \<Rightarrow> nat" where
  "work s = (case task s of None \<Rightarrow> 0 | Some (j, tpc, p) \<Rightarrow> Suc (pcw p)) + sum_list (map jw (queue s))"

lemma finish_w: "ow (finish batch s) \<le> 1"
  by (simp add: finish_def)

lemma scan_w: "ow (scan rnd cs batch s) \<le> 2 * length cs + 2"
proof (induction rnd cs batch s rule: scan.induct)
  case (1 rnd batch s)
  then show ?case using finish_w [of batch s] by simp
next
  case (2 rnd ch cs batch s)
  then show ?case using finish_w [of batch s]
    by (auto simp: Let_def simp del: scan.simps(2) simp add: scan.simps(2)[of rnd ch cs batch s])
qed

lemma scan_nb_w: "ow (scan_nb i cs s) \<le> 2 * length cs + 2"
  by (cases cs) simp_all

lemma resume_pc_w: "ow (resume_pc rnd j tpc p s) \<le> pcw p"
proof (cases p)
  case (InFlush batch extra k)
  then show ?thesis using scan_w by (cases k) (simp_all add: Let_def)
next
  case (InToken settle cs)
  then show ?thesis using scan_w by simp
next
  case (InChar i ch cs)
  then show ?thesis using scan_nb_w by (simp add: Let_def)
qed

lemma runJob_w: "runJob rnd j s = Some (tpc, out) \<Longrightarrow> ow out < jw j"
  using scan_w [of rnd "text_job j" "[]" s] scan_nb_w [of 0 "text_job j" s]
  by (auto simp: runJob_def jw_def Let_def split: option.splits if_splits)

lemma ensure_loop_work: "work (ensure_loop rnd s) \<le> sum_list (map jw (queue s))"
proof (induction rnd s rule: ensure_loop.induct)
  case (1 rnd s)
  show ?case
  proof (cases "queue s \<noteq> [] \<and> \<not> isPaused s")
    case False
    then have "queue s = [] \<or> isPaused s" by simp
    then show ?thesis
      by (simp add: ensure_loop_idle work_def emit_def)
  next
    case True
    define j where "j = hd (queue s)"
    define s1 where "s1 = s\<lparr>queue := tl (queue s), currentJob := Some j\<rparr>"
    from True have q: "queue s = j # tl (queue s)" by (simp add: j_def)
    have q1: "queue s1 = tl (queue s)" by (simp add: s1_def)
    note step = ensure_loop_step [OF q, of rnd, folded s1_def]
    have sq: "sum_list (map jw (queue s)) = jw j + sum_list (map jw (tl (queue s)))"
      using True by (cases "queue s") (simp_all add: j_def)
    show ?thesis
    proof (cases "runJob rnd j s1")
      case None
      have "work (ensure_loop rnd s) \<le> sum_list (map jw (tl (queue s)))"
        using True None 1(1) [OF True j_def s1_def None] q1
        by (simp add: step emit_def)
      then show ?thesis by (simp add: sq)
    next
      case (Some r)
      obtain tpc out where r: "r = (tpc, out)" by (cases r)
      have qq: "queue (state_of out) = tl (queue s)"
        using same_core_queue [OF runJob_core] Some r q1 by simp
      have w: "ow out < jw j" using runJob_w Some r by simp
      show ?thesis
      proof (cases out)
        case (Suspended p s2)
        with True Some r qq w have "work (ensure_loop rnd s) < jw j + sum_list (map jw (tl (queue s)))"
          by (simp add: step work_def)
        then show ?thesis by (simp add: sq)
      next
        case (Returned s2)
        have "work (ensure_loop rnd s) \<le> sum_list (map jw (tl (queue s)))"
          using True Some r Returned qq 1(2) [OF True j_def s1_def Some r [symmetric] Returned]
          by (simp add: step emit_def)
        then show ?thesis by (simp add: sq)
      qed
    qed
  qed
qed

lemma tick_work: "task s \<noteq> None \<Longrightarrow> work (tick rnd s) < work s"
proof -
  assume "task s \<noteq> None"
  then obtain j tpc p where t: "task s = Some (j, tpc, p)" by (cases "task s") auto
  have w: "ow (resume_pc rnd j tpc p s) \<le> pcw p" by (rule resume_pc_w)
  have qq: "queue (state_of (resume_pc rnd j tpc p s)) = queue s"
    using same_core_queue [OF resume_pc_core] by simp
  show ?thesis
  proof (cases "resume_pc rnd j tpc p s")
    case (Suspended p' s')
    with t w qq show ?thesis by (simp add: tick_def work_def)
  next
    case (Returned s')
    have "work (ensure_loop rnd ((emit (JobDone j) s')\<lparr>currentJob := None\<rparr>)) \<le> sum_list (map jw (queue s))"
      using ensure_loop_work [of rnd "(emit (JobDone j) s')\<lparr>currentJob := None\<rparr>"] qq Returned
      by (simp add: emit_def)
    with t Returned show ?thesis by (simp add: tick_def work_def)
  qed
qed

function drain :: "(nat \<Rightarrow> real) \<Rightarrow> sim \<Rightarrow> sim" where
  "drain rnd s = (if task s = None then s else drain rnd (tick rnd s))"
  by pat_completeness auto
termination
  by (relation "measure (\<lambda>(rnd, s). work s)") (simp_all add: tick_work)

declare drain.simps [simp del]

subsection \<open>Reading the trace\<close>

fun sends :: "action list \<Rightarrow> dispatch list" where
  "sends [] = []"
| "sends (Send d # tr) = d # sends tr"
| "sends (a # tr) = sends tr"

fun events :: "action list \<Rightarrow> event list" where
  "events [] = []"
| "events (Emit e # tr) = e # events tr"
| "events (a # tr) = events tr"

fun literals :: "dispatch list \<Rightarrow> string list" where
  "literals [] = []"
| "literals (Literal b # ds) = b # literals ds"
| "literals (d # ds) = literals ds"

fun enqueued :: "event list \<Rightarrow> job list" where
  "enqueued [] = []"
| "enqueued (Queued j # es) = j # enqueued es"
| "enqueued (e # es) = enqueued es"

fun processed :: "event list \<Rightarrow> job list" where
  "processed [] = []"
| "processed (JobDone j # es) = j # processed es"
| "processed (JobError j # es) = j # processed es"
| "processed (e # es) = processed es"

definition inflight :: "sim \<Rightarrow> job list" where
  "inflight s = (case task s of None \<Rightarrow> [] | Some (j, tpc, p) \<Rightarrow> [j])"

lemma sends_append [simp]: "sends (xs @ ys) = sends xs @ sends ys"
  by (induction xs rule: sends.induct) simp_all

lemma events_append [simp]: "events (xs @ ys) = events xs @ events ys"
  by (induction xs rule: events.induct) simp_all

lemma literals_append [simp]: "literals (xs @ ys) = literals xs @ literals ys"
  by (induction xs rule: literals.induct) simp_all

lemma enqueued_append [simp]: "enqueued (xs @ ys) = enqueued xs @ enqueued ys"
  by (induction xs rule: enqueued.induct) simp_all

lemma processed_append [simp]: "processed (xs @ ys) = processed xs @ processed ys"
  by (induction xs rule: processed.induct) simp_all

lemma trace_effects [simp]:
  "trace (emit e s) = trace s @ [Emit e]" "trace (send d s) = trace s @ [Send d]"
  "trace (sleep ms s) = trace s @ [Sleep ms]" "trace (draw s) = trace s"
  by (simp_all add: emit_def send_def sleep_def draw_def)

text \<open>
  A proof rule for the run loop: an invariant \<open>I\<close> of the loop head gives \<open>Q\<close> where
  the coroutine is suspended or has left the loop.
\<close>

lemma ensure_loop_rule:
  assumes "I s"
    and "\<And>s. I s \<Longrightarrow> queue s = [] \<or> isPaused s \<Longrightarrow>
           Q ((emit Idle (s\<lparr>isRunning := False\<rparr>))\<lparr>task := None\<rparr>)"
    and "\<And>s j q. I s \<Longrightarrow> queue s = j # q \<Longrightarrow> \<not> isPaused s \<Longrightarrow>
           runJob rnd j (s\<lparr>queue := q, currentJob := Some j\<rparr>) = None \<Longrightarrow>
           I ((emit (JobError j) (s\<lparr>queue := q, currentJob := Some j\<rparr>))\<lparr>currentJob := None\<rparr>)"
    and "\<And>s j q tpc p s2. I s \<Longrightarrow> queue s = j # q \<Longrightarrow> \<not> isPaused s \<Longrightarrow>
           runJob rnd j (s\<lparr>queue := q, currentJob := Some j\<rparr>) = Some (tpc, Suspended p s2) \<Longrightarrow>
           Q (s2\<lparr>task := Some (j, tpc, p)\<rparr>)"
    and "\<And>s j q tpc s2. I s \<Longrightarrow> queue s = j # q \<Longrightarrow> \<not> isPaused s \<Longrightarrow>
           runJob rnd j (s\<lparr>queue := q, currentJob := Some j\<rparr>) = Some (tpc, Returned s2) \<Longrightarrow>
           I ((emit (JobDone j) s2)\<lparr>currentJob := None\<rparr>)"
  shows "Q (ensure_loop rnd s)"
  using assms(1)
proof (induction n \<equiv> "length (queue s)" arbitrary: s)
  case 0
  then have "queue s = [] \<or> isPaused s" by simp
  with assms(2) [OF "0.prems"] show ?case by (simp add: ensure_loop_idle)
next
  case (Suc n)
  show ?case
  proof (cases "isPaused s")
    case True
    then have "queue s = [] \<or> isPaused s" by simp
    with assms(2) [OF Suc.prems] show ?thesis by (simp add: ensure_loop_idle)
  next
    case np: False
    from Suc.hyps(2) obtain j q where q: "queue s = j # q" and n: "n = length q"
      by (cases "queue s") auto
    define s1 where "s1 = s\<lparr>queue := q, currentJob := Some j\<rparr>"
    note step = ensure_loop_step [OF q np, of rnd, folded s1_def]
    show ?thesis
    proof (cases "runJob rnd j s1")
      case None
      from assms(3) [OF Suc.prems q np None [unfolded s1_def]]
      have i: "I ((emit (JobError j) s1)\<lparr>currentJob := None\<rparr>)" by (simp add: s1_def)
      have "n = length (queue ((emit (JobError j) s1)\<lparr>currentJob := None\<rparr>))"
        by (simp add: n s1_def emit_def)
      from Suc.hyps(1) [OF this i] None show ?thesis by (simp add: step)
    next
      case (Some r)
      obtain tpc out where r: "r = (tpc, out)" by (cases r)
      show ?thesis
      proof (cases out)
        case (Suspended p s2)
        with Some r have "runJob rnd j s1 = Some (tpc, Suspended p s2)" by simp
        from assms(4) [OF Suc.prems q np this [unfolded s1_def]] Some r Suspended
        show ?thesis by (simp add: step)
      next
        case (Returned s2)
        from Some r Returned have rj: "runJob rnd j s1 = Some (tpc, Returned s2)" by simp
        from assms(5) [OF Suc.prems q np rj [unfolded s1_def]]
        have i: "I ((emit (JobDone j) s2)\<lparr>currentJob := None\<rparr>)" .
        have "queue s2 = queue s1" using same_core_queue [OF runJob_core [OF rj]] by simp
        then have "n = length (queue ((emit (JobDone j) s2)\<lparr>currentJob := None\<rparr>))"
          by (simp add: n s1_def emit_def)
        from Suc.hyps(1) [OF this i] Some r Returned show ?thesis by (simp add: step)
      qed
    qed
  qed
qed

text \<open>A random source that never draws an early flush.\<close>

definition steady :: "nat \<Rightarrow> real" where
  "steady k = 1 / 2"

subsection \<open>Events and bookkeeping of the run loop\<close>

lemma finish_events [simp]: "events (trace (state_of (finish batch s))) = events (trace s)"
  by (simp add: finish_def)

lemma scan_events [simp]: "events (trace (state_of (scan rnd cs batch s))) = events (trace s)"
  by (induction rnd cs batch s rule: scan.induct) (auto simp: Let_def)

lemma scan_nb_events [simp]: "events (trace (state_of (scan_nb i cs s))) = events (trace s)"
  by (cases cs) simp_all

lemma runJob_events:
  "runJob rnd j s = Some (tpc, out) \<Longrightarrow> events (trace (state_of out)) = events (trace s)"
  by (auto simp: runJob_def Let_def split: option.splits if_splits)

lemma runJob_queue:
  "runJob rnd j s = Some (tpc, out) \<Longrightarrow> queue (state_of out) = queue s"
  using same_core_queue [OF runJob_core] by simp

lemma ensure_loop_enqueued [simp]:
  "enqueued (events (trace (ensure_loop rnd s))) = enqueued (events (trace s))"
proof (rule ensure_loop_rule [where I = "\<lambda>s'. enqueued (events (trace s')) = enqueued (events (trace s))"],
    goal_cases)
  case (4 s' j q tpc p s2)
  from runJob_events [OF 4(4)] 4(1) show ?case by simp
next
  case (5 s' j q tpc s2)
  from runJob_events [OF 5(4)] 5(1) show ?case by simp
qed simp_all

lemma ensure_loop_account:
  "processed (events (trace (ensure_loop rnd s))) @ inflight (ensure_loop rnd s) @ queue (ensure_loop rnd s)
     = processed (events (trace s)) @ queue s"
proof (rule ensure_loop_rule [where
      I = "\<lambda>s'. processed (events (trace s')) @ queue s' = processed (events (trace s)) @ queue s"],
    goal_cases)
  case 1
  show ?case by simp
next
  case (2 s')
  then show ?case by (simp add: inflight_def emit_def)
next
  case (3 s' j q)
  then show ?case by (simp add: emit_def)
next
  case (4 s' j q tpc p s2)
  from runJob_events [OF 4(4)] runJob_queue [OF 4(4)] 4(1,2) show ?case
    by (simp add: inflight_def)
next
  case (5 s' j q tpc s2)
  from runJob_events [OF 5(4)] runJob_queue [OF 5(4)] 5(1,2) show ?case
    by (simp add: emit_def)
qed

subsection \<open>The text a trace stands for\<close>

fun decode :: "dispatch \<Rightarrow> string" where
  "decode (Literal b) = b"
| "decode (Control t) =
     (if t = ''{ENTER}'' then [CHR 0x0A] else if t = ''{TAB}'' then [CHR 0x09] else [])"

definition typed :: "action list \<Rightarrow> string" where
  "typed tr = concat (map decode (sends tr))"

definition lit :: "action list \<Rightarrow> string" where
  "lit tr = concat (literals (sends tr))"

definition strip :: "string \<Rightarrow> string" where
  "strip cs = filter (\<lambda>c. c \<noteq> CHR 0x0A \<and> c \<noteq> CHR 0x09) cs"

fun pending :: "pc \<Rightarrow> string" where
  "pending (InFlush batch extra (KToken tok settle cs)) = decode (Control tok) @ cs"
| "pending (InFlush batch extra (KLoop cs)) = cs"
| "pending (InFlush batch extra KReturn) = []"
| "pending (InToken settle cs) = cs"
| "pending (InChar i ch cs) = cs"

fun rest_of :: "outcome \<Rightarrow> string" where
  "rest_of (Suspended p s) = pending p"
| "rest_of (Returned s) = []"

definition jtext :: "job \<Rightarrow> string" where
  "jtext j = (if jmeta j = None then [] else text_job j)"

definition todo :: "sim \<Rightarrow> string" where
  "todo s = (case task s of None \<Rightarrow> []
             | Some (j, tpc, p) \<Rightarrow> pending p @ concat (map jtext (queue s)))"

lemma typed_append [simp]: "typed (xs @ ys) = typed xs @ typed ys"
  by (simp add: typed_def)

lemma lit_append [simp]: "lit (xs @ ys) = lit xs @ lit ys"
  by (simp add: lit_def)

lemma typed_simps [simp]:
  "typed [] = []" "typed (Send d # tr) = decode d @ typed tr"
  "typed (Sleep ms # tr) = typed tr" "typed (Emit e # tr) = typed tr"
  by (simp_all add: typed_def)

lemma lit_simps [simp]:
  "lit [] = []" "lit (Send (Literal b) # tr) = b @ lit tr"
  "lit (Send (Control t) # tr) = lit tr"
  "lit (Sleep ms # tr) = lit tr" "lit (Emit e # tr) = lit tr"
  by (simp_all add: lit_def)

lemma strip_append [simp]: "strip (xs @ ys) = strip xs @ strip ys"
  by (simp add: strip_def)

lemma strip_simps [simp]:
  "strip [] = []" "strip (CHR 0x0A # cs) = strip cs" "strip (CHR 0x09 # cs) = strip cs"
  "c \<noteq> CHR 0x0A \<Longrightarrow> c \<noteq> CHR 0x09 \<Longrightarrow> strip (c # cs) = c # strip cs"
  by (simp_all add: strip_def)

lemma strip_decode_control [simp]: "strip (decode (Control t)) = []"
  by simp

lemma isPaused_effects [simp]:
  "isPaused (emit e s) = isPaused s" "isPaused (send d s) = isPaused s"
  "isPaused (sleep ms s) = isPaused s" "isPaused (draw s) = isPaused s"
  by (simp_all add: emit_def send_def sleep_def draw_def)

lemma finish_typed:
  "typed (trace (state_of (finish batch s))) @ rest_of (finish batch s) = typed (trace s) @ batch"
  "lit (trace (state_of (finish batch s))) @ strip (rest_of (finish batch s)) = lit (trace s) @ batch"
  by (simp_all add: finish_def)

lemma scan_typed:
  "\<not> isPaused s \<Longrightarrow>
   typed (trace (state_of (scan rnd cs batch s))) @ rest_of (scan rnd cs batch s)
     = typed (trace s) @ batch @ cs"
proof (induction rnd cs batch s rule: scan.induct)
  case (1 rnd batch s)
  then show ?case by (simp add: finish_typed)
next
  case (2 rnd ch cs batch s)
  then show ?case by (auto simp: Let_def)
qed

lemma scan_lit:
  "\<not> isPaused s \<Longrightarrow>
   lit (trace (state_of (scan rnd cs batch s))) @ strip (rest_of (scan rnd cs batch s))
     = lit (trace s) @ batch @ strip cs"
proof (induction rnd cs batch s rule: scan.induct)
  case (1 rnd batch s)
  then show ?case by (simp add: finish_typed)
next
  case (2 rnd ch cs batch s)
  then show ?case by (auto simp: Let_def)
qed

lemma scan_nb_typed:
  "\<not> isPaused s \<Longrightarrow>
   typed (trace (state_of (scan_nb i cs s))) @ rest_of (scan_nb i cs s) = typed (trace s) @ cs"
  by (cases cs) simp_all

lemma scan_nb_lit:
  "\<not> isPaused s \<Longrightarrow>
   lit (trace (state_of (scan_nb i cs s))) @ strip (rest_of (scan_nb i cs s))
     = lit (trace s) @ strip cs"
  by (cases cs) simp_all

lemma resume_pc_typed:
  "\<not> isPaused s \<Longrightarrow>
   typed (trace (state_of (resume_pc rnd j tpc p s))) @ rest_of (resume_pc rnd j tpc p s)
     = typed (trace s) @ pending p"
proof (cases p)
  case (InFlush batch extra k)
  assume "\<not> isPaused s"
  with InFlush show ?thesis
    using scan_typed [of _ rnd _ "[]"] by (cases k) (simp_all add: Let_def)
next
  case (InToken settle cs)
  assume "\<not> isPaused s"
  with InToken show ?thesis using scan_typed [of "sleep settle s" rnd cs "[]"] by simp
next
  case (InChar i ch cs)
  assume "\<not> isPaused s"
  with InChar show ?thesis using scan_nb_typed [of _ "Suc i" cs] by (simp add: Let_def)
qed

lemma resume_pc_lit:
  "\<not> isPaused s \<Longrightarrow>
   lit (trace (state_of (resume_pc rnd j tpc p s))) @ strip (rest_of (resume_pc rnd j tpc p s))
     = lit (trace s) @ strip (pending p)"
proof (cases p)
  case (InFlush batch extra k)
  assume "\<not> isPaused s"
  with InFlush show ?thesis
    using scan_lit [of _ rnd _ "[]"] by (cases k) (simp_all add: Let_def)
next
  case (InToken settle cs)
  assume "\<not> isPaused s"
  with InToken show ?thesis using scan_lit [of "sleep settle s" rnd cs "[]"] by simp
next
  case (InChar i ch cs)
  assume "\<not> isPaused s"
  with InChar show ?thesis using scan_nb_lit [of _ "Suc i" cs] by (simp add: Let_def)
qed

lemma runJob_typed:
  "\<not> isPaused s \<Longrightarrow> runJob rnd j s = Some (tpc, out) \<Longrightarrow>
   typed (trace (state_of out)) @ rest_of out = typed (trace s) @ jtext j \<and>
   lit (trace (state_of out)) @ strip (rest_of out) = lit (trace s) @ strip (jtext j)"
  using scan_typed [of s rnd "text_job j" "[]"] scan_lit [of s rnd "text_job j" "[]"]
    scan_nb_typed [of s 0 "text_job j"] scan_nb_lit [of s 0 "text_job j"]
  by (auto simp: runJob_def jtext_def Let_def split: option.splits if_splits)

lemma effects_fields [simp]:
  "queue (emit e s) = queue s" "queue (send d s) = queue s"
  "queue (sleep ms s) = queue s" "queue (draw s) = queue s"
  "task (emit e s) = task s" "task (send d s) = task s"
  "task (sleep ms s) = task s" "task (draw s) = task s"
  "isRunning (emit e s) = isRunning s" "isRunning (send d s) = isRunning s"
  "isRunning (sleep ms s) = isRunning s" "isRunning (draw s) = isRunning s"
  "maxBatchSize (emit e s) = maxBatchSize s" "maxBatchSize (send d s) = maxBatchSize s"
  "maxBatchSize (sleep ms s) = maxBatchSize s" "maxBatchSize (draw s) = maxBatchSize s"
  "currentJob (emit e s) = currentJob s"
  by (simp_all add: emit_def send_def sleep_def draw_def)

lemma drain_None: "task s = None \<Longrightarrow> drain rnd s = s"
  by (subst drain.simps) simp

lemma drain_Some: "task s \<noteq> None \<Longrightarrow> drain rnd s = drain rnd (tick rnd s)"
  by (subst drain.simps) auto

lemma runJob_isPaused:
  "runJob rnd j s = Some (tpc, out) \<Longrightarrow> isPaused (state_of out) = isPaused s"
  using runJob_core [of rnd j s tpc out] by (metis core_fields(3))

lemma ensure_loop_isPaused [simp]: "isPaused (ensure_loop rnd s) = isPaused s"
proof (rule ensure_loop_rule [where I = "\<lambda>s'. isPaused s' = isPaused s"], goal_cases)
  case (4 s' j q tpc p s2)
  from runJob_isPaused [OF 4(4)] 4(1) show ?case by simp
next
  case (5 s' j q tpc s2)
  from runJob_isPaused [OF 5(4)] 5(1) show ?case by simp
qed simp_all

lemma resume_pc_isPaused [simp]: "isPaused (state_of (resume_pc rnd j tpc p s)) = isPaused s"
  using resume_pc_core [of rnd j tpc p s] by (metis core_fields(3))

lemma resume_pc_queue [simp]: "queue (state_of (resume_pc rnd j tpc p s)) = queue s"
  using resume_pc_core [of rnd j tpc p s] by (metis core_fields(1))

lemma tick_isPaused [simp]: "isPaused (tick rnd s) = isPaused s"
proof (cases "task s")
  case None
  then show ?thesis by (simp add: tick_def)
next
  case (Some a)
  obtain j tpc p where a: "a = (j, tpc, p)" by (cases a)
  have "isPaused (state_of (resume_pc rnd j tpc p s)) = isPaused s" by simp
  with Some a show ?thesis
    by (cases "resume_pc rnd j tpc p s") (simp_all add: tick_def)
qed

lemma ensure_loop_typed:
  assumes "\<not> isPaused s"
  shows "typed (trace (ensure_loop rnd s)) @ todo (ensure_loop rnd s)
           = typed (trace s) @ concat (map jtext (queue s)) \<and>
         lit (trace (ensure_loop rnd s)) @ strip (todo (ensure_loop rnd s))
           = lit (trace s) @ strip (concat (map jtext (queue s)))"
proof (rule ensure_loop_rule [where I = "\<lambda>s'. \<not> isPaused s' \<and>
      typed (trace s') @ concat (map jtext (queue s')) = typed (trace s) @ concat (map jtext (queue s)) \<and>
      lit (trace s') @ strip (concat (map jtext (queue s'))) = lit (trace s) @ strip (concat (map jtext (queue s)))"],
    goal_cases)
  case 1
  from assms show ?case by simp
next
  case (2 s')
  then show ?case by (auto simp: todo_def)
next
  case (3 s' j q)
  then show ?case by (simp add: runJob_def jtext_def split: option.splits)
next
  case (4 s' j q tpc p s2)
  from 4 have np: "\<not> isPaused (s'\<lparr>queue := q, currentJob := Some j\<rparr>)" by simp
  from runJob_typed [OF np 4(4)] runJob_queue [OF 4(4)] 4(1,2) show ?case
    by (simp add: todo_def) (metis append.assoc)
next
  case (5 s' j q tpc s2)
  from 5 have np: "\<not> isPaused (s'\<lparr>queue := q, currentJob := Some j\<rparr>)" by simp
  from runJob_typed [OF np 5(4)] runJob_queue [OF 5(4)] runJob_isPaused [OF 5(4)] 5(1,2) show ?case
    by simp
qed

lemma tick_typed:
  assumes "\<not> isPaused s"
  shows "typed (trace (tick rnd s)) @ todo (tick rnd s) = typed (trace s) @ todo s \<and>
         lit (trace (tick rnd s)) @ strip (todo (tick rnd s)) = lit (trace s) @ strip (todo s)"
proof (cases "task s")
  case None
  then show ?thesis by (simp add: tick_def)
next
  case (Some a)
  obtain j tpc p where a: "a = (j, tpc, p)" by (cases a)
  note r = resume_pc_typed [OF assms, of rnd j tpc p] resume_pc_lit [OF assms, of rnd j tpc p]
  have q: "queue (state_of (resume_pc rnd j tpc p s)) = queue s" by simp
  have ip: "isPaused (state_of (resume_pc rnd j tpc p s)) = isPaused s" by simp
  show ?thesis
  proof (cases "resume_pc rnd j tpc p s")
    case (Suspended p' s')
    with Some a r q show ?thesis by (simp add: tick_def todo_def)
  next
    case (Returned s')
    with ip assms have "\<not> isPaused ((emit (JobDone j) s')\<lparr>currentJob := None\<rparr>)" by simp
    from ensure_loop_typed [OF this, of rnd] Some a r q Returned show ?thesis
      by (simp add: tick_def todo_def)
  qed
qed

lemma drain_typed:
  "\<not> isPaused s \<Longrightarrow>
   typed (trace (drain rnd s)) = typed (trace s) @ todo s \<and>
   lit (trace (drain rnd s)) = lit (trace s) @ strip (todo s)"
proof (induction rnd s rule: drain.induct)
  case (1 rnd s)
  show ?case
  proof (cases "task s = None")
    case True
    then show ?thesis by (simp add: drain_None todo_def)
  next
    case False
    from "1.prems" have "\<not> isPaused (tick rnd s)" by simp
    from "1.IH" [OF False this] tick_typed [OF "1.prems", of rnd] show ?thesis
      by (simp add: drain_Some [OF False])
  qed
qed

lemma drain_task [simp]: "task (drain rnd s) = None"
proof (induction rnd s rule: drain.induct)
  case (1 rnd s)
  then show ?case by (cases "task s = None") (simp_all add: drain_None drain_Some)
qed

text \<open>The equations that evaluate a run of the engine on a given input.\<close>

lemmas run_simps = enqueueText_def ensureRunning_def ensure_loop.simps runJob_def Let_def
  or_real_def finish_def send_def emit_def sleep_def draw_def tick_def drain.simps
  is_punct_def is_terminal_def pause_def resume_def stop_def TypingSimulator_def no_options_def
  steady_def

text \<open>An engine at rest: no run loop, no pause, nothing queued.\<close>

definition idle :: "sim \<Rightarrow> bool" where
  "idle s = (task s = None \<and> \<not> isRunning s \<and> \<not> isPaused s \<and> queue s = [])"

subsection \<open>Lifecycle events\<close>

fun is_progress :: "event \<Rightarrow> bool" where
  "is_progress (ProgressToken j b) = True"
| "is_progress (ProgressChar j i ch) = True"
| "is_progress e = False"

definition lifecycle :: "action list \<Rightarrow> event list" where
  "lifecycle tr = filter (\<lambda>e. \<not> is_progress e) (events tr)"

lemma lifecycle_append [simp]: "lifecycle (xs @ ys) = lifecycle xs @ lifecycle ys"
  by (simp add: lifecycle_def)

lemma lifecycle_simps [simp]:
  "lifecycle [] = []" "lifecycle (Send d # tr) = lifecycle tr" "lifecycle (Sleep ms # tr) = lifecycle tr"
  "lifecycle (Emit e # tr) = (if is_progress e then lifecycle tr else e # lifecycle tr)"
  by (simp_all add: lifecycle_def)

text \<open>
  What a paused loop still sends: the token of the newline or tab whose flush it is
  suspended in. The pause flag is read at the head of the \<open>for\<close> loop only.
\<close>

fun owed :: "pc \<Rightarrow> dispatch list" where
  "owed (InFlush batch extra (KToken tok settle cs)) = [Control tok]"
| "owed p = []"

subsection \<open>The injector adapter: \<open>_sendBatch\<close>\<close>

text \<open>\<open>str.replace(/c/g, rep)\<close> for a single character \<open>c\<close>.\<close>

definition replaceAll :: "char \<Rightarrow> string \<Rightarrow> string \<Rightarrow> string" where
  "replaceAll c rep str = concat (map (\<lambda>x. if x = c then rep else [x]) str)"

definition sendBatch_payload :: "string \<Rightarrow> string" where
  "sendBatch_payload batch =
     (if batch = ''{ENTER}'' \<or> batch = ''{TAB}'' then batch
      else replaceAll (CHR ''}'') ''{}}'' (replaceAll (CHR ''{'') ''{{}'' batch))"

text \<open>
  The shell command that \<open>_sendBatch\<close> executes; \<open>None\<close> for an empty batch, which
  resolves without executing anything.
\<close>

definition sendBatch_command :: "string \<Rightarrow> string option" where
  "sendBatch_command batch =
     (if batch = [] then None
      else
        (let esc = replaceAll (CHR 0x27) [CHR 0x27, CHR 0x27] (sendBatch_payload batch);
             psCmd = ''Add-Type -AssemblyName System.Windows.Forms; [System.Windows.Forms.SendKeys]::SendWait(''
                       @ [CHR 0x27] @ esc @ [CHR 0x27] @ '');''
         in Some (''powershell -NoProfile -WindowStyle Hidden -Command '' @ [CHR 0x22]
                    @ replaceAll (CHR 0x22) [CHR 0x5C, CHR 0x22] psCmd @ [CHR 0x22])))"

text \<open>
  For comparison, not part of the source: the SendKeys notation of a literal text, each
  brace of the text replaced once, by the replacement string that the source has for it:
  \<open>{{}\<close> for an opening and \<open>{}}\<close> for a closing brace.
\<close>

definition sendkeys_literal :: "string \<Rightarrow> string" where
  "sendkeys_literal str =
     concat (map (\<lambda>x. if x = CHR ''{'' then ''{{}'' else if x = CHR ''}'' then ''{}}'' else [x]) str)"

lemma scan_paused: "isPaused s \<Longrightarrow> scan rnd cs [] s = Returned s"
  by (cases cs) (simp_all add: finish_def)

lemma scan_nb_paused: "isPaused s \<Longrightarrow> scan_nb i cs s = Returned s"
  by (cases cs) simp_all

lemma tick_paused_end:
  assumes "isPaused s" "task s = Some (j, tpc, p)" "owed p = []"
  shows "sends (trace (tick rnd s)) = sends (trace s) \<and>
         lifecycle (trace (tick rnd s)) = lifecycle (trace s) @ [JobDone j, Idle] \<and>
         queue (tick rnd s) = queue s \<and> task (tick rnd s) = None \<and>
         isPaused (tick rnd s) \<and> \<not> isRunning (tick rnd s)"
proof (cases p)
  case (InFlush batch extra k)
  with assms show ?thesis
    by (cases k) (simp_all add: tick_def Let_def scan_paused ensure_loop_idle)
next
  case (InToken settle cs)
  with assms show ?thesis
    by (simp add: tick_def scan_paused ensure_loop_idle)
next
  case (InChar i ch cs)
  with assms show ?thesis
    by (simp add: tick_def Let_def scan_nb_paused ensure_loop_idle)
qed

lemma tick_paused_token:
  assumes "isPaused s" "task s = Some (j, tpc, InFlush batch extra (KToken tok settle cs))"
  shows "sends (trace (tick rnd s)) = sends (trace s) @ [Control tok] \<and>
         lifecycle (trace (tick rnd s)) = lifecycle (trace s) \<and>
         queue (tick rnd s) = queue s \<and> task (tick rnd s) = Some (j, tpc, InToken settle cs)"
  using assms by (simp add: tick_def Let_def)

lemma finish_trace: "\<exists>ext. trace (state_of (finish batch s)) = trace s @ ext"
  by (simp add: finish_def)

lemma scan_trace: "\<exists>ext. trace (state_of (scan rnd cs batch s)) = trace s @ ext"
proof (induction rnd cs batch s rule: scan.induct)
  case (1 rnd batch s)
  then show ?case by (simp add: finish_trace)
next
  case (2 rnd ch cs batch s)
  then show ?case using finish_trace [of batch s] by (auto simp: Let_def)
qed

lemma scan_nb_trace: "\<exists>ext. trace (state_of (scan_nb i cs s)) = trace s @ ext"
  by (cases cs) simp_all

lemma runJob_trace:
  "runJob rnd j s = Some (tpc, out) \<Longrightarrow> \<exists>ext. trace (state_of out) = trace s @ ext"
  using scan_trace [of rnd "text_job j" "[]" s] scan_nb_trace [of 0 "text_job j" s]
  by (auto simp: runJob_def Let_def split: option.splits if_splits)

lemma ensure_loop_trace: "\<exists>ext. trace (ensure_loop rnd s) = trace s @ ext"
proof (rule ensure_loop_rule [where I = "\<lambda>s'. \<exists>ext. trace s' = trace s @ ext"], goal_cases)
  case (4 s' j q tpc p s2)
  from runJob_trace [OF 4(4)] 4(1) show ?case by auto
next
  case (5 s' j q tpc s2)
  from runJob_trace [OF 5(4)] 5(1) show ?case by auto
qed auto

subsection \<open>The size of literal payloads\<close>

text \<open>
  A batch is flushed as soon as its length has reached \<open>maxBatchSize\<close>, so a payload
  is a single character or is less than one character beyond \<open>maxBatchSize\<close>.
\<close>

definition lits_ok :: "sim \<Rightarrow> bool" where
  "lits_ok s =
     (\<forall>b \<in> set (literals (sends (trace s))).
        length b \<le> 1 \<or> real (length b) < maxBatchSize s + 1)"

lemma lits_ok_effects [simp]:
  "lits_ok (emit e s) = lits_ok s" "lits_ok (sleep ms s) = lits_ok s"
  "lits_ok (draw s) = lits_ok s" "lits_ok (send (Control t) s) = lits_ok s"
  "lits_ok (send (Literal b) s)
     = (lits_ok s \<and> (length b \<le> 1 \<or> real (length b) < maxBatchSize s + 1))"
  by (auto simp: lits_ok_def emit_def sleep_def draw_def send_def)

lemma lits_ok_cong:
  "trace s' = trace s \<Longrightarrow> maxBatchSize s' = maxBatchSize s \<Longrightarrow> lits_ok s' = lits_ok s"
  by (simp add: lits_ok_def)

lemma finish_lits:
  "batch = [] \<or> real (length batch) < maxBatchSize s \<Longrightarrow> lits_ok s \<Longrightarrow>
   lits_ok (state_of (finish batch s))"
  by (auto simp: finish_def)

lemma scan_lits:
  "batch = [] \<or> real (length batch) < maxBatchSize s \<Longrightarrow> lits_ok s \<Longrightarrow>
   lits_ok (state_of (scan rnd cs batch s))"
proof (induction rnd cs batch s rule: scan.induct)
  case (1 rnd batch s)
  then show ?case by (simp add: finish_lits)
next
  case (2 rnd ch cs batch s)
  then show ?case using finish_lits [of batch s] by (auto simp: Let_def)
qed

lemma scan_nb_lits: "lits_ok s \<Longrightarrow> lits_ok (state_of (scan_nb i cs s))"
  by (cases cs) auto

lemma resume_pc_lits:
  assumes "lits_ok s"
  shows "lits_ok (state_of (resume_pc rnd j tpc p s))"
proof (cases p)
  case (InFlush batch extra k)
  with assms show ?thesis by (cases k) (simp_all add: Let_def scan_lits)
next
  case (InToken settle cs)
  with assms show ?thesis by (simp add: scan_lits)
next
  case (InChar i ch cs)
  with assms show ?thesis by (simp add: Let_def scan_nb_lits)
qed

lemma runJob_lits:
  "lits_ok s \<Longrightarrow> runJob rnd j s = Some (tpc, out) \<Longrightarrow> lits_ok (state_of out)"
  using scan_lits [of "[]" s rnd "text_job j"] scan_nb_lits [of s 0 "text_job j"]
  by (auto simp: runJob_def Let_def split: option.splits if_splits)

lemma ensure_loop_lits:
  assumes "lits_ok s"
  shows "lits_ok (ensure_loop rnd s)"
proof (rule ensure_loop_rule [where I = lits_ok], goal_cases)
  case 1
  show ?case by fact
next
  case (2 s')
  then show ?case
    by (simp add: lits_ok_cong [of _ "emit Idle (s'\<lparr>isRunning := False\<rparr>)"]
        lits_ok_cong [of "s'\<lparr>isRunning := False\<rparr>" s'])
next
  case (3 s' j q)
  then show ?case
    by (simp add: lits_ok_cong [of _ "emit (JobError j) (s'\<lparr>queue := q, currentJob := Some j\<rparr>)"]
        lits_ok_cong [of "s'\<lparr>queue := q, currentJob := Some j\<rparr>" s'])
next
  case (4 s' j q tpc p s2)
  have s1: "lits_ok (s'\<lparr>queue := q, currentJob := Some j\<rparr>)"
    using 4(1) by (simp add: lits_ok_cong [of "s'\<lparr>queue := q, currentJob := Some j\<rparr>" s'])
  from runJob_lits [OF s1 4(4)] show ?case
    by (simp add: lits_ok_cong [of "s2\<lparr>task := Some (j, tpc, p)\<rparr>" s2])
next
  case (5 s' j q tpc s2)
  have s1: "lits_ok (s'\<lparr>queue := q, currentJob := Some j\<rparr>)"
    using 5(1) by (simp add: lits_ok_cong [of "s'\<lparr>queue := q, currentJob := Some j\<rparr>" s'])
  from runJob_lits [OF s1 5(4)] show ?case
    by (simp add: lits_ok_cong [of _ "emit (JobDone j) s2"])
qed

lemma tick_lits: "lits_ok s \<Longrightarrow> lits_ok (tick rnd s)"
proof (cases "task s")
  case None
  assume "lits_ok s"
  with None show ?thesis by (simp add: tick_def)
next
  case (Some a)
  assume s: "lits_ok s"
  obtain j tpc p where a: "a = (j, tpc, p)" by (cases a)
  from s have l: "lits_ok (state_of (resume_pc rnd j tpc p s))"
    by (simp add: resume_pc_lits)
  show ?thesis
  proof (cases "resume_pc rnd j tpc p s")
    case (Suspended p' s')
    with Some a l show ?thesis
      by (simp add: tick_def lits_ok_cong [of "s'\<lparr>task := Some (j, tpc, p')\<rparr>" s'])
  next
    case (Returned s')
    with l have "lits_ok ((emit (JobDone j) s')\<lparr>currentJob := None\<rparr>)"
      by (simp add: lits_ok_cong [of _ "emit (JobDone j) s'"])
    from ensure_loop_lits [OF this] Some a Returned show ?thesis by (simp add: tick_def)
  qed
qed

lemma ensureRunning_lits: "lits_ok s \<Longrightarrow> lits_ok (ensureRunning rnd s)"
proof -
  assume s: "lits_ok s"
  then have "lits_ok (emit Started (s\<lparr>isRunning := True\<rparr>))"
    by (simp add: lits_ok_cong [of "s\<lparr>isRunning := True\<rparr>" s])
  from ensure_loop_lits [OF this] s show ?thesis by (simp add: ensureRunning_def)
qed

lemma enqueueText_lits: "lits_ok s \<Longrightarrow> lits_ok (snd (enqueueText rnd v d m s))"
proof -
  assume s: "lits_ok s"
  have "lits_ok (emit (Queued j) (s\<lparr>queue := queue s @ [j]\<rparr>))" for j
    using s by (simp add: lits_ok_cong [of "s\<lparr>queue := queue s @ [j]\<rparr>" s])
  from ensureRunning_lits [OF this] s show ?thesis
    by (simp add: enqueueText_def Let_def)
qed

lemma api_lits:
  assumes "lits_ok s"
  shows "lits_ok (pause s)" "lits_ok (resume rnd s)" "lits_ok (stop s)" "lits_ok (setWpm n s)"
    "lits_ok (setBatchMode e s)"
proof -
  from assms show "lits_ok (pause s)"
    by (simp add: pause_def lits_ok_cong [of "s\<lparr>isPaused := True\<rparr>" s])
  from assms have "lits_ok (emit Resumed (s\<lparr>isPaused := False\<rparr>))"
    by (simp add: lits_ok_cong [of "s\<lparr>isPaused := False\<rparr>" s])
  from ensureRunning_lits [OF this] assms show "lits_ok (resume rnd s)"
    by (simp add: resume_def)
  from assms show "lits_ok (stop s)"
    by (simp add: stop_def
        lits_ok_cong [of "s\<lparr>queue := [], isPaused := False, currentJob := None\<rparr>" s])
  from assms show "lits_ok (setWpm n s)"
    by (simp add: setWpm_def lits_ok_cong [of "s\<lparr>wpm := max 5 (or_real n (wpm s))\<rparr>" s])
  from assms show "lits_ok (setBatchMode e s)"
    by (simp add: setBatchMode_def lits_ok_cong [of "s\<lparr>batchMode := e\<rparr>" s])
qed

lemma new_lits: "lits_ok (TypingSimulator opts)"
  by (simp add: lits_ok_def TypingSimulator_def)

text \<open>
  The states an engine can be in: a new engine, and what the public operations and the
  turns of the run loop make of it, in any order.
\<close>

inductive reachable :: "(nat \<Rightarrow> real) \<Rightarrow> sim \<Rightarrow> bool" for rnd where
  new: "reachable rnd (TypingSimulator opts)"
| turn: "reachable rnd s \<Longrightarrow> reachable rnd (tick rnd s)"
| enqueue: "reachable rnd s \<Longrightarrow> reachable rnd (snd (enqueueText rnd v d m s))"
| paused: "reachable rnd s \<Longrightarrow> reachable rnd (pause s)"
| resumed: "reachable rnd s \<Longrightarrow> reachable rnd (resume rnd s)"
| stopped: "reachable rnd s \<Longrightarrow> reachable rnd (stop s)"
| wpm_set: "reachable rnd s \<Longrightarrow> reachable rnd (setWpm n s)"
| mode_set: "reachable rnd s \<Longrightarrow> reachable rnd (setBatchMode e s)"

lemma reachable_lits: "reachable rnd s \<Longrightarrow> lits_ok s"
  by (induction rule: reachable.induct)
    (simp_all add: new_lits tick_lits enqueueText_lits api_lits)

lemma lifecycle_events: "events tr' = events tr \<Longrightarrow> lifecycle tr' = lifecycle tr"
  by (simp add: lifecycle_def)

lemma resume_pc_lifecycle [simp]:
  "lifecycle (trace (state_of (resume_pc rnd j tpc p s))) = lifecycle (trace s)"
proof (cases p)
  case (InFlush batch extra k)
  then show ?thesis
    using lifecycle_events [OF scan_events]
    by (cases k) (simp_all add: Let_def)
next
  case (InToken settle cs)
  then show ?thesis using lifecycle_events [OF scan_events] by simp
next
  case (InChar i ch cs)
  then show ?thesis using lifecycle_events [OF scan_nb_events] by (simp add: Let_def)
qed

lemma single_job_run:
  "queue s = [] \<Longrightarrow> \<not> isPaused s \<Longrightarrow> task s = Some (j, tpc, p) \<Longrightarrow>
   lifecycle (trace (drain rnd s)) = lifecycle (trace s) @ [JobDone j, Idle] \<and>
   queue (drain rnd s) = [] \<and> currentJob (drain rnd s) = None \<and>
   \<not> isRunning (drain rnd s) \<and> \<not> isPaused (drain rnd s)"
proof (induction rnd s arbitrary: p rule: drain.induct)
  case (1 rnd s)
  let ?o = "resume_pc rnd j tpc p s"
  have ne: "task s \<noteq> None" using "1.prems" by simp
  have f: "lifecycle (trace (state_of ?o)) = lifecycle (trace s)" "queue (state_of ?o) = queue s"
    "isPaused (state_of ?o) = isPaused s"
    by simp_all
  show ?case
  proof (cases ?o)
    case (Suspended p' s')
    with "1.prems" f have t: "tick rnd s = s'\<lparr>task := Some (j, tpc, p')\<rparr>"
      "queue (tick rnd s) = []" "\<not> isPaused (tick rnd s)"
      "lifecycle (trace (tick rnd s)) = lifecycle (trace s)"
      by (simp_all add: tick_def)
    have "task (tick rnd s) = Some (j, tpc, p')" by (simp add: t(1))
    from "1.IH" [OF ne t(2,3) this] t(4) show ?thesis
      by (simp add: drain_Some [OF ne])
  next
    case (Returned s')
    with "1.prems" f have "tick rnd s =
        (emit Idle (((emit (JobDone j) s')\<lparr>currentJob := None\<rparr>)\<lparr>isRunning := False\<rparr>))\<lparr>task := None\<rparr>"
      by (simp add: tick_def ensure_loop_idle)
    with "1.prems" f Returned show ?thesis
      by (simp add: drain_Some [OF ne] drain_None emit_def)
  qed
qed

subsection \<open>The order of jobs\<close>


lemma runJob_isRunning:
  "runJob rnd j s = Some (tpc, out) \<Longrightarrow> isRunning (state_of out) = isRunning s"
  using runJob_core [of rnd j s tpc out] by (metis core_fields(2))

lemma ensure_loop_running:
  assumes "isRunning s"
  shows "isRunning (ensure_loop rnd s) = (task (ensure_loop rnd s) \<noteq> None)"
proof (rule ensure_loop_rule [where I = isRunning], goal_cases)
  case 1
  show ?case by fact
next
  case (4 s' j q tpc p s2)
  from runJob_isRunning [OF 4(4)] 4(1) show ?case by simp
next
  case (5 s' j q tpc s2)
  from runJob_isRunning [OF 5(4)] 5(1) show ?case by simp
qed simp_all

lemma ensure_loop_drained:
  assumes "\<not> isPaused s"
  shows "task (ensure_loop rnd s) = None \<longrightarrow> queue (ensure_loop rnd s) = []"
proof (rule ensure_loop_rule [where I = "\<lambda>s'. \<not> isPaused s'"], goal_cases)
  case 1
  show ?case by fact
next
  case (4 s' j q tpc p s2)
  show ?case by simp
next
  case (5 s' j q tpc s2)
  from runJob_isPaused [OF 5(4)] 5(1,3) show ?case by simp
qed simp_all

lemma resume_pc_events:
  "processed (events (trace (state_of (resume_pc rnd j tpc p s)))) = processed (events (trace s))"
  "enqueued (events (trace (state_of (resume_pc rnd j tpc p s)))) = enqueued (events (trace s))"
proof -
  show "processed (events (trace (state_of (resume_pc rnd j tpc p s)))) = processed (events (trace s))"
  proof (cases p)
    case (InFlush batch extra k)
    then show ?thesis by (cases k) (simp_all add: Let_def)
  qed (simp_all add: Let_def)
  show "enqueued (events (trace (state_of (resume_pc rnd j tpc p s)))) = enqueued (events (trace s))"
  proof (cases p)
    case (InFlush batch extra k)
    then show ?thesis by (cases k) (simp_all add: Let_def)
  qed (simp_all add: Let_def)
qed

lemma resume_pc_isRunning [simp]:
  "isRunning (state_of (resume_pc rnd j tpc p s)) = isRunning s"
  using resume_pc_core [of rnd j tpc p s] by (metis core_fields(2))

lemma tick_enqueued [simp]:
  "enqueued (events (trace (tick rnd s))) = enqueued (events (trace s))"
proof (cases "task s")
  case None
  then show ?thesis by (simp add: tick_def)
next
  case (Some a)
  obtain j tpc p where a: "a = (j, tpc, p)" by (cases a)
  note e = resume_pc_events(2) [of rnd j tpc p s]
  show ?thesis
  proof (cases "resume_pc rnd j tpc p s")
    case (Suspended p' s')
    with Some a e show ?thesis by (simp add: tick_def)
  next
    case (Returned s')
    with Some a e show ?thesis by (simp add: tick_def)
  qed
qed







subsection \<open>The first dispatch of a job\<close>

lemma scan_suspends:
  "\<not> isPaused s \<Longrightarrow> cs \<noteq> [] \<or> batch \<noteq> [] \<Longrightarrow>
   \<exists>p d s'. scan rnd cs batch s = Suspended p s' \<and> trace s' = trace s @ [Send d]"
proof (induction rnd cs batch s rule: scan.induct)
  case (1 rnd batch s)
  then show ?case by (simp add: finish_def)
next
  case (2 rnd ch cs batch s)
  then show ?case by (auto simp: Let_def)
qed

lemma scan_nb_suspends:
  "\<not> isPaused s \<Longrightarrow> cs \<noteq> [] \<Longrightarrow>
   \<exists>p d s'. scan_nb i cs s = Suspended p s' \<and> trace s' = trace s @ [Send d]"
  by (cases cs) simp_all

lemma runJob_suspends:
  assumes "\<not> isPaused s" "jmeta j \<noteq> None" "text_job j \<noteq> []"
  shows "\<exists>tpc p d s'. runJob rnd j s = Some (tpc, Suspended p s') \<and> trace s' = trace s @ [Send d]"
proof -
  from assms(2) obtain m where m: "jmeta j = Some m" by auto
  from assms(3) have t: "text_job j \<noteq> [] \<or> ([]::string) \<noteq> []" by simp
  show ?thesis
    using scan_suspends [OF assms(1) t, of rnd] scan_nb_suspends [OF assms(1,3), of 0]
    by (auto simp: runJob_def m Let_def)
qed

lemma runJob_currentJob:
  "runJob rnd j s = Some (tpc, out) \<Longrightarrow> currentJob (state_of out) = currentJob s"
  using runJob_core [of rnd j s tpc out] by (metis core_fields(4))

lemma ensure_loop_starts:
  assumes "\<not> isPaused s" "queue s = j # q" "jmeta j \<noteq> None" "text_job j \<noteq> []"
  shows "(\<exists>tpc p d. task (ensure_loop rnd s) = Some (j, tpc, p) \<and>
            trace (ensure_loop rnd s) = trace s @ [Send d]) \<and>
         isRunning (ensure_loop rnd s) = isRunning s \<and> queue (ensure_loop rnd s) = q \<and>
         currentJob (ensure_loop rnd s) = Some j"
proof -
  let ?s1 = "s\<lparr>queue := q, currentJob := Some j\<rparr>"
  have np: "\<not> isPaused ?s1" using assms(1) by simp
  from runJob_suspends [OF np assms(3,4), of rnd] obtain tpc p d s'
    where r: "runJob rnd j ?s1 = Some (tpc, Suspended p s')" and t: "trace s' = trace ?s1 @ [Send d]"
    by blast
  from runJob_queue [OF r] runJob_isRunning [OF r] runJob_currentJob [OF r]
  have f: "queue s' = q" "isRunning s' = isRunning s" "currentJob s' = Some j" by simp_all
  have e: "ensure_loop rnd s = s'\<lparr>task := Some (j, tpc, p)\<rparr>"
    by (simp add: ensure_loop_step [OF assms(2,1)] r)
  from f t show ?thesis by (simp add: e)
qed

section \<open>The claims\<close>

text \<open>
  C3 (as stated, refuted): \<open>setWordsPerMinute(0)\<close> does not give a rate of 5 for every
  prior state. \<open>Number(0) || this.wpm\<close> falls back to the current rate: a new engine
  has rate 60 and keeps it.
\<close>

theorem setWpm_zero_counterexample:
  "wpm (setWpm (Some 0) (TypingSimulator no_options)) \<noteq> 5"
  by (simp add: setWpm_def or_real_def TypingSimulator_def no_options_def)

text \<open>
  C3 (amended): \<open>setWpm(-10)\<close> gives the rate 5 from every prior state;
  \<open>setWpm(0)\<close> gives the larger of 5 and the prior rate.
\<close>

theorem setWpm_clamp:
  "wpm (setWpm (Some (- 10)) s) = 5 \<and> wpm (setWpm (Some 0) s) = max 5 (wpm s)"
  by (simp add: setWpm_def or_real_def)

text \<open>
  C6: \<open>enqueueText\<close> with an empty string, \<open>null\<close> or \<open>undefined\<close> returns
  \<open>null\<close> and leaves the whole state as it was (so the queue keeps its length and no
  \<open>queued\<close> event is emitted). With a non-empty string it returns a job holding that
  text and emits \<open>queued\<close> for it; the job is appended to the queue: it is the last
  entry of the queue when the run loop is active or paused, and otherwise the loop starts
  at once on the queue with the job at its end.
\<close>

theorem enqueueText_validation:
  "enqueueText rnd (Str []) d m s = (None, s) \<and>
   enqueueText rnd Null d m s = (None, s) \<and>
   enqueueText rnd Undefined d m s = (None, s) \<and>
   (t \<noteq> [] \<longrightarrow>
     (\<exists>j. fst (enqueueText rnd (Str t) d m s) = Some j \<and> text_job j = t \<and>
          enqueued (events (trace (snd (enqueueText rnd (Str t) d m s))))
            = enqueued (events (trace s)) @ [j] \<and>
          (isRunning s \<or> isPaused s \<longrightarrow>
             queue (snd (enqueueText rnd (Str t) d m s)) = queue s @ [j]) \<and>
          (\<not> isRunning s \<and> \<not> isPaused s \<longrightarrow>
             processed (events (trace (snd (enqueueText rnd (Str t) d m s))))
               @ inflight (snd (enqueueText rnd (Str t) d m s))
               @ queue (snd (enqueueText rnd (Str t) d m s))
             = processed (events (trace s)) @ queue s @ [j])))"
proof -
  have "enqueueText rnd (Str []) d m s = (None, s)"
    and "enqueueText rnd Null d m s = (None, s)"
    and "enqueueText rnd Undefined d m s = (None, s)"
    by (simp_all add: enqueueText_def)
  moreover have "\<exists>j. fst (enqueueText rnd (Str t) d m s) = Some j \<and> text_job j = t \<and>
          enqueued (events (trace (snd (enqueueText rnd (Str t) d m s))))
            = enqueued (events (trace s)) @ [j] \<and>
          (isRunning s \<or> isPaused s \<longrightarrow>
             queue (snd (enqueueText rnd (Str t) d m s)) = queue s @ [j]) \<and>
          (\<not> isRunning s \<and> \<not> isPaused s \<longrightarrow>
             processed (events (trace (snd (enqueueText rnd (Str t) d m s))))
               @ inflight (snd (enqueueText rnd (Str t) d m s))
               @ queue (snd (enqueueText rnd (Str t) d m s))
             = processed (events (trace s)) @ queue s @ [j])" if t: "t \<noteq> []"
  proof -
    define j where "j = \<lparr> text_job = t,
                   delayMs = (case d of None \<Rightarrow> defaultDelay s | Some x \<Rightarrow> x),
                   jmeta = (case m of
                              None \<Rightarrow> Some \<lparr> m_batchMode = None, m_wpm = None, m_source = None \<rparr>
                            | Some x \<Rightarrow> x) \<rparr>"
    define s1 where "s1 = emit (Queued j) (s\<lparr>queue := queue s @ [j]\<rparr>)"
    have e: "enqueueText rnd (Str t) d m s = (Some j, ensureRunning rnd s1)"
      using t by (simp add: enqueueText_def j_def s1_def Let_def)
    have f: "isRunning s1 = isRunning s" "isPaused s1 = isPaused s" "queue s1 = queue s @ [j]"
      "events (trace s1) = events (trace s) @ [Queued j]"
      by (simp_all add: s1_def emit_def)
    show ?thesis
    proof (intro exI [of _ j] conjI impI)
      show "fst (enqueueText rnd (Str t) d m s) = Some j" by (simp add: e)
      show "text_job j = t" by (simp add: j_def)
      show "enqueued (events (trace (snd (enqueueText rnd (Str t) d m s))))
            = enqueued (events (trace s)) @ [j]"
        by (simp add: e ensureRunning_def f emit_def)
      show "queue (snd (enqueueText rnd (Str t) d m s)) = queue s @ [j]"
        if "isRunning s \<or> isPaused s"
        using that by (auto simp: e ensureRunning_def f)
      show "processed (events (trace (snd (enqueueText rnd (Str t) d m s))))
               @ inflight (snd (enqueueText rnd (Str t) d m s))
               @ queue (snd (enqueueText rnd (Str t) d m s))
             = processed (events (trace s)) @ queue s @ [j]"
        if "\<not> isRunning s \<and> \<not> isPaused s"
        using that by (simp add: e ensureRunning_def f ensure_loop_account emit_def)
    qed
  qed
  ultimately show ?thesis by blast
qed


theorem enqueueText_validation_witness:
  "(\<exists>j. fst (enqueueText steady (Str ''ok'') None None (TypingSimulator no_options)) = Some j \<and>
        text_job j = ''ok'' \<and>
        processed (events (trace (snd (enqueueText steady (Str ''ok'') None None
            (TypingSimulator no_options)))))
          @ inflight (snd (enqueueText steady (Str ''ok'') None None (TypingSimulator no_options)))
          @ queue (snd (enqueueText steady (Str ''ok'') None None (TypingSimulator no_options)))
        = [j]) \<and>
   (\<exists>j. fst (enqueueText steady (Str ''ok'') None None (pause (TypingSimulator no_options)))
          = Some j \<and>
        queue (snd (enqueueText steady (Str ''ok'') None None (pause (TypingSimulator no_options))))
          = [j])"
proof -
  have a: "''ok'' \<noteq> []" by simp
  have b: "\<not> isRunning (TypingSimulator no_options) \<and> \<not> isPaused (TypingSimulator no_options)"
    "queue (TypingSimulator no_options) = []" "trace (TypingSimulator no_options) = []"
    by (simp_all add: TypingSimulator_def)
  have c: "isRunning (pause (TypingSimulator no_options)) \<or> isPaused (pause (TypingSimulator no_options))"
    "queue (pause (TypingSimulator no_options)) = []"
    by (simp_all add: TypingSimulator_def pause_def emit_def)
  from enqueueText_validation [of steady None None "TypingSimulator no_options" "''ok''"] a b
  have "\<exists>j. fst (enqueueText steady (Str ''ok'') None None (TypingSimulator no_options)) = Some j \<and>
        text_job j = ''ok'' \<and>
        processed (events (trace (snd (enqueueText steady (Str ''ok'') None None
            (TypingSimulator no_options)))))
          @ inflight (snd (enqueueText steady (Str ''ok'') None None (TypingSimulator no_options)))
          @ queue (snd (enqueueText steady (Str ''ok'') None None (TypingSimulator no_options)))
        = [j]"
    by auto
  moreover
  from enqueueText_validation [of steady None None "pause (TypingSimulator no_options)" "''ok''"] a c
  have "\<exists>j. fst (enqueueText steady (Str ''ok'') None None (pause (TypingSimulator no_options)))
          = Some j \<and>
        queue (snd (enqueueText steady (Str ''ok'') None None (pause (TypingSimulator no_options))))
          = [j]"
    by auto
  ultimately show ?thesis by blast
qed

text \<open>
  C1 (as stated, refuted): the literal payloads of an uninterrupted batch-mode run do not
  always concatenate to the input text. For the text \<open>a\<close> followed by a newline the
  only literal payload is \<open>a\<close>; the newline is sent as the \<open>{ENTER}\<close> token.
\<close>

theorem batch_literals_counterexample:
  "concat (literals (sends (trace (drain steady
      (snd (enqueueText steady (Str (''a'' @ [CHR 0x0A])) None None (TypingSimulator no_options)))))))
   \<noteq> ''a'' @ [CHR 0x0A]"
  by (simp add: run_simps)

text \<open>
  C1 (amended): for every text enqueued on an idle engine, with any metadata but
  \<open>null\<close>, and run without interruption, in batch mode or not, the payloads in emission
  order, with each \<open>{ENTER}\<close> token read as a newline and each \<open>{TAB}\<close> token as a
  tab, concatenate to the text exactly; the literal payloads alone concatenate to the text
  with its newline and tab characters removed, hence to the text itself when it has none.
\<close>

theorem run_reconstructs_text:
  assumes "idle s" "mv \<noteq> Some None"
  shows "typed (trace (drain rnd (snd (enqueueText rnd (Str t) d mv s))))
           = typed (trace s) @ t \<and>
         lit (trace (drain rnd (snd (enqueueText rnd (Str t) d mv s))))
           = lit (trace s) @ strip t"
proof (cases "t = []")
  case True
  with assms show ?thesis by (simp add: enqueueText_def idle_def drain_None strip_def)
next
  case False
  define j where "j = \<lparr> text_job = t,
      delayMs = (case d of None \<Rightarrow> defaultDelay s | Some x \<Rightarrow> x),
      jmeta = (case mv of
                 None \<Rightarrow> Some \<lparr> m_batchMode = None, m_wpm = None, m_source = None \<rparr>
               | Some x \<Rightarrow> x) \<rparr>"
  define s1 where "s1 = emit Started ((emit (Queued j) (s\<lparr>queue := queue s @ [j]\<rparr>))\<lparr>isRunning := True\<rparr>)"
  have e: "snd (enqueueText rnd (Str t) d mv s) = ensure_loop rnd s1"
    using False assms(1)
    by (simp add: enqueueText_def ensureRunning_def idle_def j_def s1_def Let_def emit_def)
  have s1: "\<not> isPaused s1" "queue s1 = [j]" "typed (trace s1) = typed (trace s)"
    "lit (trace s1) = lit (trace s)"
    using assms(1) by (simp_all add: s1_def idle_def emit_def)
  have "jmeta j \<noteq> None" using assms(2) by (cases mv) (simp_all add: j_def)
  moreover have "text_job j = t" by (simp add: j_def)
  ultimately have jt: "jtext j = t" unfolding jtext_def by auto
  from drain_typed [of "ensure_loop rnd s1" rnd] ensure_loop_typed [OF s1(1), of rnd] s1 jt
  show ?thesis by (simp add: e)
qed

theorem run_reconstructs_text_witness:
  "idle (TypingSimulator no_options) \<and>
   typed (trace (drain steady (snd (enqueueText steady (Str (''a'' @ [CHR 0x0A] @ ''b'')) None None
      (TypingSimulator no_options))))) = ''a'' @ [CHR 0x0A] @ ''b'' \<and>
   lit (trace (drain steady (snd (enqueueText steady (Str (''a'' @ [CHR 0x0A] @ ''b'')) None None
      (TypingSimulator no_options))))) = ''ab''"
proof -
  have i: "idle (TypingSimulator no_options)"
    by (simp add: idle_def TypingSimulator_def)
  have m: "(None :: meta option option) \<noteq> Some None" by simp
  have t: "trace (TypingSimulator no_options) = []"
    by (simp add: TypingSimulator_def)
  from run_reconstructs_text [OF i m, of steady "''a'' @ [CHR 0x0A] @ ''b''" None] i t
  show ?thesis by simp
qed

text \<open>
  C2 (as stated, refuted): for the text \<open>Hi.\<close> followed by a newline the first payload
  is not \<open>Hi\<close>: the full stop is appended to the batch before the flush it triggers.
\<close>

theorem hi_scenario_counterexample:
  "sends (trace (drain steady (snd (enqueueText steady (Str (''Hi.'' @ [CHR 0x0A])) None None
      (TypingSimulator no_options)))))
   \<noteq> [Literal ''Hi'', Control ''{ENTER}'']"
  by (simp add: run_simps)

text \<open>
  C2 (amended): for the text \<open>Hi.\<close> followed by a newline, enqueued with default
  metadata on an idle engine in batch mode with \<open>maxBatchSize\<close> and \<open>minBatchSize\<close>
  at least 3, the run does exactly this: \<open>queued\<close>, \<open>started\<close>, the literal payload
  \<open>Hi.\<close> (with the full stop), its \<open>progress\<close> event, a wait of the paced delay and
  jitter plus the extra 260 ms, the \<open>{ENTER}\<close> token, a wait of 80 ms, \<open>job-done\<close>
  and \<open>idle\<close>.
\<close>

theorem hi_scenario:
  assumes "idle s" "batchMode s" "3 \<le> maxBatchSize s" "3 \<le> minBatchSize s"
  shows "let j = \<lparr> text_job = ''Hi.'' @ [CHR 0x0A],
                   delayMs = (case d of None \<Rightarrow> defaultDelay s | Some x \<Rightarrow> x),
                   jmeta = Some \<lparr> m_batchMode = None, m_wpm = None, m_source = None \<rparr> \<rparr>;
             baseWait = 60000 / (wpm s * avgCharsPerWord s) * 3 * 0.85;
             jitter = rnd (rctr s) * baseWait * 0.08
         in trace (drain rnd (snd (enqueueText rnd (Str (''Hi.'' @ [CHR 0x0A])) d None s))) =
            trace s @ [Emit (Queued j), Emit Started, Send (Literal ''Hi.''),
              Emit (ProgressToken j ''Hi.''), Sleep (max 0 (baseWait + jitter + 260)),
              Send (Control ''{ENTER}''), Sleep 80, Emit (JobDone j), Emit Idle]"
  using assms by (simp add: run_simps idle_def)

theorem hi_scenario_witness:
  "idle (TypingSimulator no_options) \<and> batchMode (TypingSimulator no_options) \<and>
   3 \<le> maxBatchSize (TypingSimulator no_options) \<and> 3 \<le> minBatchSize (TypingSimulator no_options) \<and>
   trace (drain steady (snd (enqueueText steady (Str (''Hi.'' @ [CHR 0x0A])) None None
      (TypingSimulator no_options)))) =
     [Emit (Queued \<lparr> text_job = ''Hi.'' @ [CHR 0x0A], delayMs = 0,
                      jmeta = Some \<lparr> m_batchMode = None, m_wpm = None, m_source = None \<rparr> \<rparr>),
      Emit Started, Send (Literal ''Hi.''),
      Emit (ProgressToken \<lparr> text_job = ''Hi.'' @ [CHR 0x0A], delayMs = 0,
                      jmeta = Some \<lparr> m_batchMode = None, m_wpm = None, m_source = None \<rparr> \<rparr> ''Hi.''),
      Sleep (3952 / 5), Send (Control ''{ENTER}''), Sleep 80,
      Emit (JobDone \<lparr> text_job = ''Hi.'' @ [CHR 0x0A], delayMs = 0,
                      jmeta = Some \<lparr> m_batchMode = None, m_wpm = None, m_source = None \<rparr> \<rparr>),
      Emit Idle]"
proof -
  have h: "idle (TypingSimulator no_options)" "batchMode (TypingSimulator no_options)"
    "3 \<le> maxBatchSize (TypingSimulator no_options)" "3 \<le> minBatchSize (TypingSimulator no_options)"
    by (simp_all add: idle_def TypingSimulator_def no_options_def or_real_def)
  have v: "trace (TypingSimulator no_options) = []" "wpm (TypingSimulator no_options) = 60"
    "avgCharsPerWord (TypingSimulator no_options) = 5" "defaultDelay (TypingSimulator no_options) = 0"
    "rctr (TypingSimulator no_options) = 0"
    by (simp_all add: TypingSimulator_def no_options_def or_real_def)
  from hi_scenario [OF h, of None steady] h v show ?thesis
    by (simp add: Let_def steady_def)
qed

text \<open>
  C4 (as stated, refuted): a job of ten instructions is paused after exactly two of them
  have been dispatched, and three are delivered. The second instruction is the flush that
  a newline triggers; the \<open>{ENTER}\<close> token follows it in the same pass of the loop,
  before the pause flag is read again.
\<close>

theorem pause_after_two_counterexample:
  "length (sends (trace (drain steady (snd (enqueueText steady
      (Str (''a.b'' @ [CHR 0x0A] @ ''c.d.e.f.g.h.i.'')) None None (TypingSimulator no_options)))))) = 10 \<and>
   sends (trace (tick steady (snd (enqueueText steady
      (Str (''a.b'' @ [CHR 0x0A] @ ''c.d.e.f.g.h.i.'')) None None (TypingSimulator no_options)))))
     = [Literal ''a.'', Literal ''b''] \<and>
   sends (trace (drain steady (pause (tick steady (snd (enqueueText steady
      (Str (''a.b'' @ [CHR 0x0A] @ ''c.d.e.f.g.h.i.'')) None None (TypingSimulator no_options)))))))
     = [Literal ''a.'', Literal ''b'', Control ''{ENTER}'']"
  by (simp add: run_simps)

text \<open>
  C4 (amended): when \<open>pause()\<close> is called while a job is suspended after a dispatch, the
  job delivers the instructions dispatched so far and nothing more, except that when it
  is suspended in the flush triggered by a newline or tab character the token of that
  character is still sent. Then \<open>job-done\<close> is emitted for the truncated job, followed
  by \<open>idle\<close>; the loop is left, the queue is as it was, and the rest of the job is
  never dispatched.
\<close>

theorem pause_truncates:
  assumes "task s = Some (j, tpc, p)"
  shows "sends (trace (drain rnd (pause s))) = sends (trace s) @ owed p \<and>
         lifecycle (trace (drain rnd (pause s))) = lifecycle (trace s) @ [Paused, JobDone j, Idle] \<and>
         queue (drain rnd (pause s)) = queue s \<and>
         task (drain rnd (pause s)) = None \<and>
         isPaused (drain rnd (pause s)) \<and> \<not> isRunning (drain rnd (pause s))"
proof -
  let ?s = "pause s"
  have p: "isPaused ?s" "task ?s = Some (j, tpc, p)" "sends (trace ?s) = sends (trace s)"
    "lifecycle (trace ?s) = lifecycle (trace s) @ [Paused]" "queue ?s = queue s"
    using assms by (simp_all add: pause_def)
  show ?thesis
  proof (cases "owed p = []")
    case True
    from tick_paused_end [OF p(1,2) True, of rnd] p
    show ?thesis by (simp add: drain_Some drain_None True)
  next
    case False
    then obtain batch extra tok settle cs where pc: "p = InFlush batch extra (KToken tok settle cs)"
      by (cases p rule: owed.cases) simp_all
    note t1 = tick_paused_token [OF p(1) p(2) [unfolded pc], of rnd]
    have ip: "isPaused (tick rnd ?s)" using p(1) by simp
    have ow: "owed (InToken settle cs) = []" by simp
    from t1 have tk: "task (tick rnd ?s) = Some (j, tpc, InToken settle cs)" by simp
    note t2 = tick_paused_end [OF ip tk ow, of rnd]
    have d: "drain rnd ?s = tick rnd (tick rnd ?s)"
      using p(2) tk t2 by (simp add: drain_Some drain_None)
    from t1 t2 p show ?thesis by (simp add: d pc)
  qed
qed


theorem pause_truncates_witness:
  "task (snd (enqueueText steady (Str (''ab'' @ [CHR 0x0A] @ ''cd'')) None None
      (TypingSimulator no_options)))
     = Some (\<lparr> text_job = ''ab'' @ [CHR 0x0A] @ ''cd'', delayMs = 0,
                jmeta = Some \<lparr> m_batchMode = None, m_wpm = None, m_source = None \<rparr> \<rparr>,
             200, InFlush ''ab'' 0 (KToken ''{ENTER}'' 80 ''cd'')) \<and>
   sends (trace (drain steady (pause (snd (enqueueText steady
      (Str (''ab'' @ [CHR 0x0A] @ ''cd'')) None None (TypingSimulator no_options))))))
     = [Literal ''ab'', Control ''{ENTER}'']"
proof -
  have t: "task (snd (enqueueText steady (Str (''ab'' @ [CHR 0x0A] @ ''cd'')) None None
      (TypingSimulator no_options)))
     = Some (\<lparr> text_job = ''ab'' @ [CHR 0x0A] @ ''cd'', delayMs = 0,
                jmeta = Some \<lparr> m_batchMode = None, m_wpm = None, m_source = None \<rparr> \<rparr>,
             200, InFlush ''ab'' 0 (KToken ''{ENTER}'' 80 ''cd''))"
    by (simp add: run_simps)
  have u: "sends (trace (snd (enqueueText steady (Str (''ab'' @ [CHR 0x0A] @ ''cd'')) None None
      (TypingSimulator no_options)))) = [Literal ''ab'']"
    by (simp add: run_simps)
  from pause_truncates [OF t, of steady] t u show ?thesis by simp
qed

text \<open>
  C8 (the code departs from the claim): \<open>_sendBatch\<close> escapes braces with two chained
  replacements, and the second one rewrites the closing brace that the first has just
  inserted: the literal batch \<open>{\<close> is sent as \<open>{{{}}\<close>, which is not the SendKeys
  notation \<open>{{}\<close> of an opening brace. A literal batch that reads \<open>{TAB}\<close> (or
  \<open>{ENTER}\<close>) passes the test for the engine's own tokens and is sent unescaped, exactly
  as the control token is.
\<close>

theorem sendBatch_brace_escape:
  "sendBatch_payload ''{'' = ''{{{}}'' \<and> sendkeys_literal ''{'' = ''{{}'' \<and>
   sends (trace (drain steady (snd (enqueueText steady (Str ''{TAB}'') None None
      (TypingSimulator no_options))))) = [Literal ''{TAB}''] \<and>
   sendBatch_payload ''{TAB}'' = ''{TAB}'' \<and> sendkeys_literal ''{TAB}'' = ''{{}TAB{}}'' \<and>
   sendBatch_command (arg (Literal ''{TAB}'')) = sendBatch_command (arg (Control ''{TAB}''))"
  by (simp add: sendBatch_payload_def sendkeys_literal_def replaceAll_def run_simps)

text \<open>
  C9 (as stated, refuted): \<open>resume()\<close> on a paused engine with an empty queue does emit
  \<open>started\<close>, followed at once by \<open>idle\<close>.
\<close>

theorem resume_empty_queue_counterexample:
  "isPaused (pause (TypingSimulator no_options)) \<and> queue (pause (TypingSimulator no_options)) = [] \<and>
   events (trace (resume steady (pause (TypingSimulator no_options))))
     = [Paused, Resumed, Started, Idle]"
  by (simp add: run_simps)

text \<open>
  C9 (amended): \<open>resume()\<close> called while the pause flag is set clears the flag and emits
  \<open>resumed\<close>. With a run loop still active it does nothing more. With no active run loop
  it emits \<open>started\<close>, whether the queue is empty or not, and starts the loop on the
  queue: the jobs of the queue are from then on the processed ones, the one in flight and
  the ones still queued, in this order, and the engine is running exactly when a job is
  in flight. With work left (the job at the head of the queue has text and metadata) that
  job is taken from the queue and is in flight, its first instruction is dispatched and
  the engine is running; with an empty queue \<open>started\<close> is followed at once by \<open>idle\<close>
  and the engine is not running.
\<close>

theorem resume_restarts:
  assumes "isPaused s"
  shows "\<not> isPaused (resume rnd s) \<and>
         (isRunning s \<longrightarrow> trace (resume rnd s) = trace s @ [Emit Resumed]) \<and>
         (\<not> isRunning s \<longrightarrow>
            (\<exists>ext. trace (resume rnd s) = trace s @ [Emit Resumed, Emit Started] @ ext) \<and>
            processed (events (trace (resume rnd s))) @ inflight (resume rnd s) @ queue (resume rnd s)
              = processed (events (trace s)) @ queue s \<and>
            isRunning (resume rnd s) = (task (resume rnd s) \<noteq> None) \<and>
            (task (resume rnd s) = None \<longrightarrow> queue (resume rnd s) = [])) \<and>
         (\<not> isRunning s \<and> queue s = [] \<longrightarrow>
            trace (resume rnd s) = trace s @ [Emit Resumed, Emit Started, Emit Idle] \<and>
            \<not> isRunning (resume rnd s)) \<and>
         (\<not> isRunning s \<and> queue s \<noteq> [] \<and> jmeta (hd (queue s)) \<noteq> None \<and>
          text_job (hd (queue s)) \<noteq> [] \<longrightarrow>
            (\<exists>tpc p d. task (resume rnd s) = Some (hd (queue s), tpc, p) \<and>
               trace (resume rnd s) = trace s @ [Emit Resumed, Emit Started, Send d]) \<and>
            isRunning (resume rnd s) \<and> queue (resume rnd s) = tl (queue s) \<and>
            currentJob (resume rnd s) = Some (hd (queue s)))"
proof -
  let ?s2 = "emit Started ((emit Resumed (s\<lparr>isPaused := False\<rparr>))\<lparr>isRunning := True\<rparr>)"
  have s2: "\<not> isPaused ?s2" "isRunning ?s2" "queue ?s2 = queue s"
    "trace ?s2 = trace s @ [Emit Resumed, Emit Started]"
    by (simp_all add: emit_def)
  have r: "resume rnd s = ensure_loop rnd ?s2" if "\<not> isRunning s"
    using assms that by (simp add: resume_def ensureRunning_def)
  have a: "\<not> isPaused (resume rnd s)"
    using assms by (simp add: resume_def ensureRunning_def emit_def)
  have b: "trace (resume rnd s) = trace s @ [Emit Resumed]" if "isRunning s"
    using assms that by (simp add: resume_def ensureRunning_def emit_def)
  have c: "(\<exists>ext. trace (resume rnd s) = trace s @ [Emit Resumed, Emit Started] @ ext) \<and>
            processed (events (trace (resume rnd s))) @ inflight (resume rnd s) @ queue (resume rnd s)
              = processed (events (trace s)) @ queue s \<and>
            isRunning (resume rnd s) = (task (resume rnd s) \<noteq> None) \<and>
            (task (resume rnd s) = None \<longrightarrow> queue (resume rnd s) = [])" if nr: "\<not> isRunning s"
  proof -
    from ensure_loop_trace [of rnd ?s2] s2(4)
    have "\<exists>ext. trace (ensure_loop rnd ?s2) = trace s @ [Emit Resumed, Emit Started] @ ext"
      by simp
    moreover from ensure_loop_account [of rnd ?s2] s2
    have "processed (events (trace (ensure_loop rnd ?s2))) @ inflight (ensure_loop rnd ?s2)
            @ queue (ensure_loop rnd ?s2) = processed (events (trace s)) @ queue s"
      by simp
    moreover note ensure_loop_running [OF s2(2), of rnd] ensure_loop_drained [OF s2(1), of rnd]
    ultimately show ?thesis by (simp add: r [OF nr])
  qed
  have d: "trace (resume rnd s) = trace s @ [Emit Resumed, Emit Started, Emit Idle] \<and>
            \<not> isRunning (resume rnd s)" if "\<not> isRunning s \<and> queue s = []"
    using assms that by (simp add: resume_def ensureRunning_def ensure_loop_idle emit_def)
  have e: "(\<exists>tpc p d. task (resume rnd s) = Some (hd (queue s), tpc, p) \<and>
               trace (resume rnd s) = trace s @ [Emit Resumed, Emit Started, Send d]) \<and>
            isRunning (resume rnd s) \<and> queue (resume rnd s) = tl (queue s) \<and>
            currentJob (resume rnd s) = Some (hd (queue s))"
    if h: "\<not> isRunning s \<and> queue s \<noteq> [] \<and> jmeta (hd (queue s)) \<noteq> None \<and>
          text_job (hd (queue s)) \<noteq> []"
  proof -
    from h have q: "queue ?s2 = hd (queue s) # tl (queue s)" by (simp add: emit_def)
    from h have m: "jmeta (hd (queue s)) \<noteq> None" and t: "text_job (hd (queue s)) \<noteq> []"
      and nr: "\<not> isRunning s" by simp_all
    from ensure_loop_starts [OF s2(1) q m t, of rnd] s2 show ?thesis
      by (simp add: r [OF nr])
  qed
  from a b c d e show ?thesis by blast
qed

theorem resume_restarts_witness:
  "isPaused (pause (TypingSimulator no_options)) \<and>
   \<not> isRunning (pause (TypingSimulator no_options)) \<and>
   queue (pause (TypingSimulator no_options)) = [] \<and>
   trace (resume steady (pause (TypingSimulator no_options)))
     = [Emit Paused, Emit Resumed, Emit Started, Emit Idle] \<and>
   isPaused (pause (snd (enqueueText steady (Str ''ok'') None None (TypingSimulator no_options)))) \<and>
   isRunning (pause (snd (enqueueText steady (Str ''ok'') None None (TypingSimulator no_options)))) \<and>
   trace (resume steady (pause (snd (enqueueText steady (Str ''ok'') None None
      (TypingSimulator no_options)))))
     = trace (pause (snd (enqueueText steady (Str ''ok'') None None (TypingSimulator no_options))))
       @ [Emit Resumed] \<and>
   isPaused (snd (enqueueText steady (Str ''ok'') None None (pause (TypingSimulator no_options)))) \<and>
   \<not> isRunning (snd (enqueueText steady (Str ''ok'') None None (pause (TypingSimulator no_options)))) \<and>
   queue (snd (enqueueText steady (Str ''ok'') None None (pause (TypingSimulator no_options))))
     = [\<lparr> text_job = ''ok'', delayMs = 0,
          jmeta = Some \<lparr> m_batchMode = None, m_wpm = None, m_source = None \<rparr> \<rparr>] \<and>
   isRunning (resume steady
      (snd (enqueueText steady (Str ''ok'') None None (pause (TypingSimulator no_options))))) \<and>
   queue (resume steady
      (snd (enqueueText steady (Str ''ok'') None None (pause (TypingSimulator no_options))))) = [] \<and>
   currentJob (resume steady
      (snd (enqueueText steady (Str ''ok'') None None (pause (TypingSimulator no_options)))))
     = Some \<lparr> text_job = ''ok'', delayMs = 0,
          jmeta = Some \<lparr> m_batchMode = None, m_wpm = None, m_source = None \<rparr> \<rparr>"
proof -
  let ?a = "pause (TypingSimulator no_options)"
  let ?b = "pause (snd (enqueueText steady (Str ''ok'') None None (TypingSimulator no_options)))"
  let ?c = "snd (enqueueText steady (Str ''ok'') None None (pause (TypingSimulator no_options)))"
  let ?j = "\<lparr> text_job = ''ok'', delayMs = 0,
          jmeta = Some \<lparr> m_batchMode = None, m_wpm = None, m_source = None \<rparr> \<rparr>"
  have a: "isPaused ?a" "\<not> isRunning ?a" "queue ?a = []" "trace ?a = [Emit Paused]"
    by (simp_all add: pause_def emit_def TypingSimulator_def)
  have b: "isPaused ?b" "isRunning ?b"
    by (simp_all add: run_simps)
  have c: "isPaused ?c" "\<not> isRunning ?c" "queue ?c = [?j]"
    by (simp_all add: run_simps)
  have ha: "\<not> isRunning ?a \<and> queue ?a = []" using a by simp
  from resume_restarts [OF a(1), of steady] ha
  have ra: "trace (resume steady ?a) = trace ?a @ [Emit Resumed, Emit Started, Emit Idle]"
    by blast
  from resume_restarts [OF b(1), of steady] b(2)
  have rb: "trace (resume steady ?b) = trace ?b @ [Emit Resumed]" by blast
  have hc: "\<not> isRunning ?c \<and> queue ?c \<noteq> [] \<and> jmeta (hd (queue ?c)) \<noteq> None \<and>
      text_job (hd (queue ?c)) \<noteq> []"
    using c by simp
  from resume_restarts [OF c(1), of steady] hc
  have rc: "isRunning (resume steady ?c) \<and> queue (resume steady ?c) = tl (queue ?c) \<and>
      currentJob (resume steady ?c) = Some (hd (queue ?c))"
    by blast
  from ra rb rc a b c show ?thesis by simp
qed

text \<open>
  C5 (as stated, refuted): a literal payload can be longer than \<open>maxBatchSize\<close>. The
  constructor keeps the number it is given; with \<open>maxBatchSize: 2.5\<close> the batch of the
  text \<open>abc\<close> reaches the limit only at three characters and is sent whole.
\<close>

theorem literal_payload_bound_counterexample:
  "''abc'' \<in> set (literals (sends (trace (snd (enqueueText steady (Str ''abc'') None None
      (TypingSimulator (no_options\<lparr>o_maxBatchSize := Some (5 / 2)\<rparr>))))))) \<and>
   maxBatchSize (snd (enqueueText steady (Str ''abc'') None None
      (TypingSimulator (no_options\<lparr>o_maxBatchSize := Some (5 / 2)\<rparr>)))) < real (length ''abc'')"
  by (simp add: run_simps)

text \<open>
  C5 (amended): in every state an engine can reach, for every text, every random outcome
  and every interleaving of the public operations with the run loop, in batch mode or
  not, no literal payload sent so far is longer than \<open>maxBatchSize\<close> when
  \<open>maxBatchSize\<close> is a whole number of at least 1; for any \<open>maxBatchSize\<close> no
  payload is longer than the larger of 1 and \<open>maxBatchSize\<close> rounded up.
\<close>

theorem literal_payload_bound:
  assumes "reachable rnd s" "b \<in> set (literals (sends (trace s)))"
  shows "int (length b) \<le> max 1 \<lceil>maxBatchSize s\<rceil> \<and>
         (1 \<le> maxBatchSize s \<and> maxBatchSize s \<in> \<int> \<longrightarrow> real (length b) \<le> maxBatchSize s)"
proof -
  from reachable_lits [OF assms(1)] assms(2)
  have d: "length b \<le> 1 \<or> real (length b) < maxBatchSize s + 1"
    by (simp add: lits_ok_def)
  have "int (length b) \<le> max 1 \<lceil>maxBatchSize s\<rceil>"
  proof (cases "length b \<le> 1")
    case True
    then show ?thesis by simp
  next
    case False
    with d have "of_int (int (length b) - 1) < maxBatchSize s" by simp
    then have "int (length b) - 1 < \<lceil>maxBatchSize s\<rceil>" by (simp only: less_ceiling_iff)
    then show ?thesis by simp
  qed
  moreover have "real (length b) \<le> maxBatchSize s"
    if h: "1 \<le> maxBatchSize s \<and> maxBatchSize s \<in> \<int>"
  proof (cases "length b \<le> 1")
    case True
    then have "real (length b) \<le> 1" by simp
    with h show ?thesis by linarith
  next
    case False
    from h obtain k :: int where k: "maxBatchSize s = of_int k" by (auto elim: Ints_cases)
    from False d k have "real_of_int (int (length b)) < real_of_int (k + 1)" by simp
    then have "int (length b) < k + 1" by (simp only: of_int_less_iff)
    then have "real_of_int (int (length b)) \<le> real_of_int k" by simp
    with k show ?thesis by simp
  qed
  ultimately show ?thesis by blast
qed

theorem literal_payload_bound_witness:
  "reachable steady (tick steady (snd (enqueueText steady (Str ''abcdefghijklmnop'') None None
      (TypingSimulator no_options)))) \<and>
   ''abcdefghijkl'' \<in> set (literals (sends (trace (tick steady (snd (enqueueText steady
      (Str ''abcdefghijklmnop'') None None (TypingSimulator no_options))))))) \<and>
   maxBatchSize (tick steady (snd (enqueueText steady
      (Str ''abcdefghijklmnop'') None None (TypingSimulator no_options)))) = 12 \<and>
   real (length ''abcdefghijkl'') \<le> maxBatchSize (tick steady (snd (enqueueText steady
      (Str ''abcdefghijklmnop'') None None (TypingSimulator no_options))))"
proof -
  have r: "reachable steady (tick steady (snd (enqueueText steady (Str ''abcdefghijklmnop'') None None
      (TypingSimulator no_options))))"
    by (intro reachable.turn reachable.enqueue reachable.new)
  have m: "''abcdefghijkl'' \<in> set (literals (sends (trace (tick steady (snd (enqueueText steady
      (Str ''abcdefghijklmnop'') None None (TypingSimulator no_options)))))))"
    by (simp add: run_simps)
  have v: "maxBatchSize (tick steady (snd (enqueueText steady
      (Str ''abcdefghijklmnop'') None None (TypingSimulator no_options)))) = 12"
    by (simp add: run_simps)
  have i: "(1::real) \<le> 12 \<and> (12::real) \<in> \<int>" by simp
  from literal_payload_bound [OF r m] r m v i show ?thesis by simp
qed

text \<open>
  C10: \<open>stop()\<close> called while a job is in flight clears the queue, the reference to the
  current job and the pause flag, and leaves the suspended run loop as it is. The job is
  not truncated: run on, the loop dispatches all that was still to come of the job's
  text, then emits \<open>job-done\<close> for the job and \<open>idle\<close>, and the engine is not running,
  with an empty queue.
\<close>

theorem stop_keeps_job:
  assumes "task s = Some (j, tpc, p)"
  shows "queue (stop s) = [] \<and> currentJob (stop s) = None \<and> \<not> isPaused (stop s) \<and>
         task (stop s) = task s \<and>
         typed (trace (drain rnd (stop s))) = typed (trace s) @ pending p \<and>
         lit (trace (drain rnd (stop s))) = lit (trace s) @ strip (pending p) \<and>
         lifecycle (trace (drain rnd (stop s))) = lifecycle (trace s) @ [Stopped, JobDone j, Idle] \<and>
         queue (drain rnd (stop s)) = [] \<and> task (drain rnd (stop s)) = None \<and>
         \<not> isRunning (drain rnd (stop s))"
proof -
  have s: "queue (stop s) = []" "currentJob (stop s) = None" "\<not> isPaused (stop s)"
    "task (stop s) = Some (j, tpc, p)" "typed (trace (stop s)) = typed (trace s)"
    "lit (trace (stop s)) = lit (trace s)" "lifecycle (trace (stop s)) = lifecycle (trace s) @ [Stopped]"
    using assms by (simp_all add: stop_def emit_def)
  from drain_typed [OF s(3), of rnd] single_job_run [OF s(1,3,4), of rnd] s assms
  show ?thesis by (simp add: todo_def)
qed

theorem stop_keeps_job_witness:
  "task (snd (enqueueText steady (Str (''ab'' @ [CHR 0x0A] @ ''cd'')) None None
      (TypingSimulator no_options)))
     = Some (\<lparr> text_job = ''ab'' @ [CHR 0x0A] @ ''cd'', delayMs = 0,
                jmeta = Some \<lparr> m_batchMode = None, m_wpm = None, m_source = None \<rparr> \<rparr>,
             200, InFlush ''ab'' 0 (KToken ''{ENTER}'' 80 ''cd'')) \<and>
   typed (trace (drain steady (stop (snd (enqueueText steady
      (Str (''ab'' @ [CHR 0x0A] @ ''cd'')) None None (TypingSimulator no_options))))))
     = ''ab'' @ [CHR 0x0A] @ ''cd''"
proof -
  have t: "task (snd (enqueueText steady (Str (''ab'' @ [CHR 0x0A] @ ''cd'')) None None
      (TypingSimulator no_options)))
     = Some (\<lparr> text_job = ''ab'' @ [CHR 0x0A] @ ''cd'', delayMs = 0,
                jmeta = Some \<lparr> m_batchMode = None, m_wpm = None, m_source = None \<rparr> \<rparr>,
             200, InFlush ''ab'' 0 (KToken ''{ENTER}'' 80 ''cd''))"
    by (simp add: run_simps)
  have u: "typed (trace (snd (enqueueText steady (Str (''ab'' @ [CHR 0x0A] @ ''cd'')) None None
      (TypingSimulator no_options)))) = ''ab''"
    by (simp add: run_simps)
  from stop_keeps_job [OF t, of steady] t u show ?thesis by simp
qed



end
